theory Spec2Isabelle
  imports Main "HOL-Library.Word" "HOL-Library.Multiset"
begin

unbundle bit_operations_syntax

section \<open>Consensus: the prepareRequest message\<close>

text \<open>
  \<^verbatim>\<open>type prepareRequest struct { timestamp uint64; nonce uint64;
  transactionHashes []util.Uint256; nextConsensus util.Uint160 }\<close>.
  Hashes are kept as byte lists; only their identity matters here.
\<close>

type_synonym uint64 = "64 word"
type_synonym Uint256 = "8 word list"
type_synonym Uint160 = "8 word list"

record prepareRequest =
  timestamp :: uint64
  nonce :: uint64
  transactionHashes :: "Uint256 list"
  nextConsensus :: Uint160

text \<open>\<^verbatim>\<open>func (p *prepareRequest) Timestamp() uint64 { return p.timestamp * 1000000 }\<close>\<close>

definition Timestamp :: "prepareRequest \<Rightarrow> uint64" where
  "Timestamp p = timestamp p * 1000000"

text \<open>\<^verbatim>\<open>func (p *prepareRequest) SetTimestamp(ts uint64) { p.timestamp = ts / 1000000 }\<close>\<close>

definition SetTimestamp :: "prepareRequest \<Rightarrow> uint64 \<Rightarrow> prepareRequest" where
  "SetTimestamp p ts = p\<lparr>timestamp := ts div 1000000\<rparr>"

section \<open>Blockchain state: the data of transaction.go\<close>

type_synonym uint32 = "32 word"
type_synonym uint16 = "16 word"
type_synonym bytes = "8 word list"

text \<open>\<^verbatim>\<open>util.Fixed8\<close> is an int64; \<^verbatim>\<open>state.Coin\<close> is a byte of flag bits.\<close>

type_synonym Fixed8 = "64 word"
type_synonym Coin = "8 word"

text \<open>\<^verbatim>\<open>transaction.Input\<close> and \<^verbatim>\<open>transaction.Output\<close> (the fields the code reads).\<close>

record Input =
  PrevHash :: Uint256
  PrevIndex :: uint16

record Output =
  AssetID :: Uint256
  Amount :: Fixed8
  ScriptHash :: Uint160

text \<open>\<^verbatim>\<open>state.OutputState\<close> embeds the output; \<^verbatim>\<open>state.UnspentCoin\<close> holds one per output.\<close>

record OutputState =
  Output :: Output
  SpendHeight :: uint32
  State :: Coin

record UnspentCoin =
  Height :: uint32
  States :: "OutputState list"

record UnclaimedBalance =
  ub_Tx :: Uint256
  ub_Index :: uint16
  ub_Start :: uint32
  ub_End :: uint32
  ub_Value :: Fixed8

record UnspentBalance =
  bal_Tx :: Uint256
  bal_Index :: uint16
  bal_Value :: Fixed8

text \<open>
  \<^verbatim>\<open>state.Account\<close>: \<^verbatim>\<open>Balances\<close> is a Go map from asset to a slice (a missing key reads as
  the empty slice); \<^verbatim>\<open>Unclaimed\<close> is the account's table of unclaimed balances, whose
  representation is private to \<^verbatim>\<open>Put\<close> and \<^verbatim>\<open>Remove\<close>.
\<close>

record 'u Account =
  acc_ScriptHash :: Uint160
  Balances :: "Uint256 \<rightharpoonup> UnspentBalance list"
  Unclaimed :: 'u

record Block =
  Index :: uint32

record Transaction =
  Hash :: Uint256
  VerificationHash :: Uint256

record Config =
  VerifyTransactions :: bool
  FreeGasLimit :: Fixed8

text \<open>Errors are values. \<^verbatim>\<open>errors.Wrap\<close> keeps nil as nil.\<close>

datatype error =
    BadInput Uint256 uint16
  | DoubleSpend Uint256 uint16
  | InvalidClaimIndex
  | DoubleClaim
  | DaoError string
  | VMError string
  | Wrapped error string

definition Wrap :: "error option \<Rightarrow> string \<Rightarrow> error option" where
  "Wrap err msg = (case err of None \<Rightarrow> None | Some e \<Rightarrow> Some (Wrapped e msg))"

text \<open>The warnings written through \<^verbatim>\<open>bc.log.Warn\<close>, with their fields.\<close>

datatype log_entry =
    FalseOrDoubleClaim Uint256 uint16 Uint256 uint32
  | NoSpentCoinInAccount Uint256 Uint256 Uint160
  | ContractInvocationFailed Uint256 uint32 "error option"

subsection \<open>Stack items and notifications\<close>

datatype StackItem =
    BigIntegerItem int
  | BoolItem bool
  | ByteArrayItem bytes
  | ArrayItem "StackItem list"
  | StructItem "StackItem list"
  | MapItem "(StackItem \<times> StackItem) list"
  | InteropItem nat
  | NullItem

record NotificationEvent =
  note_ScriptHash :: Uint160
  note_Item :: StackItem

text \<open>
  Modelled from the spec: the VM's terminal state (4.1, "State machine"). The VM type and
  its methods \<^verbatim>\<open>HasFailed\<close> and \<^verbatim>\<open>State\<close> are not among the source files; the run has
  failed exactly when it ended in FAULT.
\<close>

datatype vmstate = NONE | BREAK | HALT | FAULT

text \<open>
  What \<^verbatim>\<open>processInvocationTX\<close> configures on the VM before \<^verbatim>\<open>Run\<close>, and what it reads
  from the VM and the interop context afterwards. \<^verbatim>\<open>'d\<close> is the interop context's own
  DAO layer, staged over the store of the block's cache.
\<close>

record VM =
  checkedHash :: bytes
  script :: bytes
  priceGetter :: bool
  gasLimit :: Fixed8

record 'd vm_result =
  run_err :: "error option"
  run_state :: vmstate
  run_gasConsumed :: Fixed8
  run_estack :: "StackItem list"
  run_dao :: 'd
  run_notifications :: "NotificationEvent list"

definition HasFailed :: "'d vm_result \<Rightarrow> bool" where
  "HasFailed r = (run_state r = FAULT)"

typedecl ContractParameter

record AppExecResult =
  aer_TxHash :: Uint256
  aer_Trigger :: nat
  aer_VMState :: vmstate
  aer_GasConsumed :: Fixed8
  aer_Stack :: "ContractParameter list"
  aer_Events :: "NotificationEvent list"

text \<open>\<^verbatim>\<open>trigger.Application\<close> is 16 (see the generated \<^verbatim>\<open>Type.String\<close>).\<close>

definition Application :: nat where
  "Application = 16"

subsection \<open>What transaction.go calls but the source files do not define\<close>

text \<open>
  The methods of \<^verbatim>\<open>cachedDao\<close>, of \<^verbatim>\<open>state.UnclaimedBalances\<close> and of the VM, the
  \<^verbatim>\<open>state.Coin\<close> flag constants and the helpers of the blockchain are taken as
  parameters: \<^verbatim>\<open>'c\<close> is the cache, \<^verbatim>\<open>'u\<close> the table of unclaimed balances, \<^verbatim>\<open>'d\<close> the
  staged DAO of an invocation. A method that can fail returns its error; a method that
  writes returns the cache it leaves.
\<close>

record ('c, 'u, 'd) env =
  CoinSpent :: Coin
  CoinClaimed :: Coin
  GoverningTokenID :: Uint256
  GetAccountStateOrNew :: "'c \<Rightarrow> Uint160 \<Rightarrow> error + 'u Account"
  GetAccountState :: "'c \<Rightarrow> Uint160 \<Rightarrow> error + 'u Account"
  PutAccountState :: "'c \<Rightarrow> 'u Account \<Rightarrow> error option \<times> 'c"
  GetUnspentCoinState :: "'c \<Rightarrow> Uint256 \<Rightarrow> error + UnspentCoin"
  PutUnspentCoinState :: "'c \<Rightarrow> Uint256 \<Rightarrow> UnspentCoin \<Rightarrow> error option \<times> 'c"
  PutAppExecResult :: "'c \<Rightarrow> AppExecResult \<Rightarrow> error option \<times> 'c"
  UnclaimedPut :: "'u \<Rightarrow> UnclaimedBalance \<Rightarrow> error + 'u"
  UnclaimedRemove :: "'u \<Rightarrow> Uint256 \<Rightarrow> uint16 \<Rightarrow> bool \<times> 'u"
  processTXWithValidatorsSubtract ::
    "Output \<Rightarrow> 'u Account \<Rightarrow> 'c \<Rightarrow> error option \<times> 'u Account \<times> 'c"
  spawnVMWithInterops :: "'c \<Rightarrow> Block \<Rightarrow> Transaction \<Rightarrow> VM"
  Run :: "VM \<Rightarrow> 'c \<Rightarrow> Block \<Rightarrow> Transaction \<Rightarrow> 'd vm_result"
  Persist :: "'d \<Rightarrow> 'c \<Rightarrow> error option \<times> 'c"
  ToContractParameters :: "StackItem list \<Rightarrow> ContractParameter list"
  BytesToInt :: "bytes \<Rightarrow> int"
  processNEP5Transfer ::
    "'c \<Rightarrow> Transaction \<Rightarrow> Block \<Rightarrow> Uint160 \<Rightarrow> bytes \<Rightarrow> bytes \<Rightarrow> Fixed8 \<Rightarrow> 'c"

section \<open>processTXInput\<close>

text \<open>
  The tail of \<^verbatim>\<open>processTXInput\<close>: the spent output leaves the account's balance list of
  its asset. A list of at most one entry is deleted whole; otherwise the first entry
  matching the input is overwritten by the last one and the list loses its last slot.
\<close>

fun findBalance :: "UnspentBalance list \<Rightarrow> Input \<Rightarrow> nat \<Rightarrow> nat option" where
  "findBalance [] input i = None"
| "findBalance (b # bs) input i =
     (if bal_Tx b = PrevHash input \<and> bal_Index b = PrevIndex input then Some i
      else findBalance bs input (Suc i))"

definition removeBalance :: "'u Account \<Rightarrow> Output \<Rightarrow> Input \<Rightarrow> 'u Account" where
  "removeBalance account prevTXOutput input =
     (let asset = AssetID prevTXOutput;
          bals = (case Balances account asset of None \<Rightarrow> [] | Some l \<Rightarrow> l);
          balancesLen = length bals
      in if balancesLen \<le> 1 then account\<lparr>Balances := (Balances account)(asset := None)\<rparr>
         else (case findBalance bals input 0 of
                 None \<Rightarrow> account
               | Some index \<Rightarrow>
                   (let last = balancesLen - 1;
                        bals1 = (if last > index then bals[index := bals ! last] else bals)
                    in account\<lparr>Balances := (Balances account)(asset \<mapsto> take last bals1)\<rparr>)))"

text \<open>
  The governing-token block of \<^verbatim>\<open>processTXInput\<close>: record the unclaimed balance
  (start = the coin's height, end = the block's index) and subtract the validators' votes.
\<close>

definition governingTokenSpent ::
  "('c, 'u, 'd) env \<Rightarrow> Input \<Rightarrow> UnspentCoin \<Rightarrow> Block \<Rightarrow> Output \<Rightarrow> 'u Account \<Rightarrow> 'c
     \<Rightarrow> error option \<times> 'u Account \<times> 'c" where
  "governingTokenSpent E input unspent block prevTXOutput account cache =
     (if AssetID prevTXOutput = GoverningTokenID E then
        (case UnclaimedPut E (Unclaimed account)
                \<lparr>ub_Tx = PrevHash input, ub_Index = PrevIndex input,
                 ub_Start = Height unspent, ub_End = Index block,
                 ub_Value = Amount prevTXOutput\<rparr> of
           Inl err \<Rightarrow> (Some err, account, cache)
         | Inr u \<Rightarrow>
             processTXWithValidatorsSubtract E prevTXOutput (account\<lparr>Unclaimed := u\<rparr>) cache)
      else (None, account, cache))"

text \<open>
  \<^verbatim>\<open>processTXInput\<close>. The coin state is reached through a pointer, so the marks made
  before a later error stay: the function returns the coin state it leaves together with
  the error and the cache.
\<close>

definition processTXInput ::
  "('c, 'u, 'd) env \<Rightarrow> Input \<Rightarrow> UnspentCoin \<Rightarrow> Block \<Rightarrow> 'c
     \<Rightarrow> error option \<times> UnspentCoin \<times> 'c" where
  "processTXInput E input unspent block cache =
     (let i = unat (PrevIndex input) in
      if length (States unspent) \<le> i then
        (Some (BadInput (PrevHash input) (PrevIndex input)), unspent, cache)
      else if State (States unspent ! i) AND CoinSpent E \<noteq> 0 then
        (Some (DoubleSpend (PrevHash input) (PrevIndex input)), unspent, cache)
      else
        (let st = States unspent ! i;
             unspent1 = unspent\<lparr>States := (States unspent)
                          [i := st\<lparr>SpendHeight := Index block, State := State st OR CoinSpent E\<rparr>]\<rparr>;
             prevTXOutput = Output st
         in case GetAccountStateOrNew E cache (ScriptHash prevTXOutput) of
              Inl err \<Rightarrow> (Some err, unspent1, cache)
            | Inr account \<Rightarrow>
                (case governingTokenSpent E input unspent1 block prevTXOutput account cache of
                   (Some err, account1, cache1) \<Rightarrow> (Some err, unspent1, cache1)
                 | (None, account1, cache1) \<Rightarrow>
                     (case PutAccountState E cache1 (removeBalance account1 prevTXOutput input) of
                        (err, cache2) \<Rightarrow> (err, unspent1, cache2)))))"

section \<open>processClaimTX\<close>

text \<open>
  One claim reference is checked against the coin state read from the cache: the read
  itself may fail, the index may be out of range, the claimed bit may be set already.
\<close>

definition checkClaim :: "('c, 'u, 'd) env \<Rightarrow> 'c \<Rightarrow> Input \<Rightarrow> error + UnspentCoin" where
  "checkClaim E cache input =
     (case GetUnspentCoinState E cache (PrevHash input) of
        Inl err \<Rightarrow> Inl err
      | Inr scs \<Rightarrow>
          if length (States scs) \<le> unat (PrevIndex input) then Inl InvalidClaimIndex
          else if State (States scs ! unat (PrevIndex input)) AND CoinClaimed E \<noteq> 0
          then Inl DoubleClaim
          else Inr scs)"

text \<open>
  \<^verbatim>\<open>processClaimTX\<close>: the loop over \<^verbatim>\<open>t.Claims\<close>, as a recursion on the references still
  to process, threading the cache and the log. A bad reference is logged; in strict mode
  its error is returned, otherwise \<^verbatim>\<open>break\<close> leaves the loop and the function returns nil.
\<close>

fun processClaimTX ::
  "('c, 'u, 'd) env \<Rightarrow> Config \<Rightarrow> Input list \<Rightarrow> Transaction \<Rightarrow> Block \<Rightarrow> 'c \<Rightarrow> log_entry list
     \<Rightarrow> error option \<times> 'c \<times> log_entry list" where
  "processClaimTX E config [] tx block cache lg = (None, cache, lg)"
| "processClaimTX E config (input # claims) tx block cache lg =
     (case checkClaim E cache input of
        Inl err \<Rightarrow>
          (let lg1 = lg @ [FalseOrDoubleClaim (PrevHash input) (PrevIndex input) (Hash tx) (Index block)]
           in if VerifyTransactions config then (Some err, cache, lg1)
              else (None, cache, lg1))
      | Inr scs \<Rightarrow>
          (let i = unat (PrevIndex input) in
           case GetAccountState E cache (ScriptHash (Output (States scs ! i))) of
             Inl err \<Rightarrow> (Some err, cache, lg)
           | Inr acc \<Rightarrow>
               (let scs1 = scs\<lparr>States := (States scs)
                             [i := (States scs ! i)\<lparr>State := State (States scs ! i) OR CoinClaimed E\<rparr>]\<rparr>
                in case PutUnspentCoinState E cache (PrevHash input) scs1 of
                     (Some err, cache1) \<Rightarrow> (Some err, cache1, lg)
                   | (None, cache1) \<Rightarrow>
                       (case UnclaimedRemove E (Unclaimed acc) (PrevHash input) (PrevIndex input) of
                          (False, u) \<Rightarrow>
                            processClaimTX E config claims tx block cache1
                              (lg @ [NoSpentCoinInAccount (Hash tx) (PrevHash input) (acc_ScriptHash acc)])
                        | (True, u) \<Rightarrow>
                            (case PutAccountState E cache1 (acc\<lparr>Unclaimed := u\<rparr>) of
                               (Some err, cache2) \<Rightarrow> (Some err, cache2, lg)
                             | (None, cache2) \<Rightarrow>
                                 processClaimTX E config claims tx block cache2 lg)))))"

section \<open>processInvocationTX\<close>

record InvocationTX =
  Script :: bytes
  Gas :: Fixed8

text \<open>
  The scan of the notifications after a run that did not fail: an event whose item is a
  list of four items \<^verbatim>\<open>("transfer", from, to, amount)\<close> is handed to
  \<^verbatim>\<open>processNEP5Transfer\<close>. \<^verbatim>\<open>Value().([]vm.StackItem)\<close> succeeds on arrays and structs,
  \<^verbatim>\<open>Value().([]byte)\<close> on byte arrays, \<^verbatim>\<open>Value().(*big.Int)\<close> on integers.
\<close>

definition asItems :: "StackItem \<Rightarrow> StackItem list option" where
  "asItems x = (case x of ArrayItem l \<Rightarrow> Some l | StructItem l \<Rightarrow> Some l | _ \<Rightarrow> None)"

definition asBytes :: "StackItem \<Rightarrow> bytes option" where
  "asBytes x = (case x of ByteArrayItem b \<Rightarrow> Some b | _ \<Rightarrow> None)"

definition transfer_op :: bytes where
  "transfer_op = [116, 114, 97, 110, 115, 102, 101, 114]"

definition transferAmount :: "('c, 'u, 'd) env \<Rightarrow> StackItem \<Rightarrow> int option" where
  "transferAmount E x =
     (case x of BigIntegerItem n \<Rightarrow> Some n
      | ByteArrayItem bs \<Rightarrow> Some (BytesToInt E bs)
      | _ \<Rightarrow> None)"

definition processNote ::
  "('c, 'u, 'd) env \<Rightarrow> Transaction \<Rightarrow> Block \<Rightarrow> 'c \<Rightarrow> NotificationEvent \<Rightarrow> 'c" where
  "processNote E tx block cache note =
     (case asItems (note_Item note) of
        None \<Rightarrow> cache
      | Some arr \<Rightarrow>
          if length arr \<noteq> 4 then cache
          else (case asBytes (arr ! 0) of
                  None \<Rightarrow> cache
                | Some op \<Rightarrow>
                    if op \<noteq> transfer_op then cache
                    else (case asBytes (arr ! 1) of
                            None \<Rightarrow> cache
                          | Some from \<Rightarrow>
                              (case asBytes (arr ! 2) of
                                 None \<Rightarrow> cache
                               | Some to \<Rightarrow>
                                   (case transferAmount E (arr ! 3) of
                                      None \<Rightarrow> cache
                                    | Some amount \<Rightarrow>
                                        processNEP5Transfer E cache tx block (note_ScriptHash note)
                                          from to (word_of_int amount))))))"

text \<open>
  The VM as \<^verbatim>\<open>processInvocationTX\<close> sets it up. \<^verbatim>\<open>SetGasLimit\<close> is called only under
  \<^verbatim>\<open>bc.config.FreeGasLimit > 0\<close>, a signed comparison on int64; the sum is an int64 sum.
\<close>

definition setupVM ::
  "('c, 'u, 'd) env \<Rightarrow> Config \<Rightarrow> InvocationTX \<Rightarrow> Transaction \<Rightarrow> Block \<Rightarrow> 'c \<Rightarrow> VM" where
  "setupVM E config t tx block cache =
     (let v = (spawnVMWithInterops E cache block tx)
                \<lparr>checkedHash := VerificationHash tx, script := Script t, priceGetter := True\<rparr>
      in if 0 <s FreeGasLimit config then v\<lparr>gasLimit := FreeGasLimit config + Gas t\<rparr> else v)"

text \<open>
  What \<^verbatim>\<open>processInvocationTX\<close> does once \<^verbatim>\<open>v.Run()\<close> has returned. A run that has not
  failed persists the interop context's DAO and scans the notifications; a failed run
  only logs a warning. Both paths then store the \<^verbatim>\<open>AppExecResult\<close> and return
  the (wrapped) error of that store.
\<close>

definition afterRun ::
  "('c, 'u, 'd) env \<Rightarrow> Transaction \<Rightarrow> Block \<Rightarrow> 'c \<Rightarrow> log_entry list \<Rightarrow> 'd vm_result
     \<Rightarrow> error option \<times> 'c \<times> log_entry list" where
  "afterRun E tx block cache lg r =
     (let aer = \<lparr>aer_TxHash = Hash tx, aer_Trigger = Application, aer_VMState = run_state r,
                 aer_GasConsumed = run_gasConsumed r,
                 aer_Stack = ToContractParameters E (run_estack r),
                 aer_Events = run_notifications r\<rparr>
      in if \<not> HasFailed r then
           (case Persist E (run_dao r) cache of
              (Some err, cache1) \<Rightarrow>
                (Wrap (Some err) ''failed to persist invocation results'', cache1, lg)
            | (None, cache1) \<Rightarrow>
                (case PutAppExecResult E
                        (foldl (processNote E tx block) cache1 (run_notifications r)) aer of
                   (err, cache2) \<Rightarrow> (Wrap err ''failed to store notifications'', cache2, lg)))
         else
           (case PutAppExecResult E cache aer of
              (err, cache2) \<Rightarrow>
                (Wrap err ''failed to store notifications'', cache2,
                 lg @ [ContractInvocationFailed (Hash tx) (Index block) (run_err r)])))"

definition processInvocationTX ::
  "('c, 'u, 'd) env \<Rightarrow> Config \<Rightarrow> InvocationTX \<Rightarrow> Transaction \<Rightarrow> Block \<Rightarrow> 'c \<Rightarrow> log_entry list
     \<Rightarrow> error option \<times> 'c \<times> log_entry list" where
  "processInvocationTX E config t tx block cache lg =
     afterRun E tx block cache lg (Run E (setupVM E config t tx block cache) cache block tx)"

section \<open>An in-memory DAO to run the functions on\<close>

text \<open>
  Modelled from the spec: \<^verbatim>\<open>emit.BytesToInt\<close> is not among the source files; integers
  on the wire are little-endian (6, "fixed-little-endian integers"), read here as two's
  complement: the last byte carries the sign.
\<close>

fun le_nat :: "bytes \<Rightarrow> nat" where
  "le_nat [] = 0"
| "le_nat (b # bs) = unat b + 256 * le_nat bs"

fun BytesToInt_le :: "bytes \<Rightarrow> int" where
  "BytesToInt_le [] = 0"
| "BytesToInt_le [b] = sint b"
| "BytesToInt_le (b # bs) = uint b + 256 * BytesToInt_le bs"

text \<open>
  Modelled from the spec: the cached DAO and the table of unclaimed balances are not
  among the source files. This instance follows 4.2 ("Caching DAO stack"): a read returns
  what was written last under the key, a key never written is missing, and an account
  read "or new" is created empty. The flag bits are two distinct bits. The staged DAO of
  an invocation is a list of account writes that \<^verbatim>\<open>Persist\<close> puts in front of the cache.
  The VM run is left as a parameter.
\<close>

record memCache =
  mc_unspents :: "(Uint256 \<times> UnspentCoin) list"
  mc_accounts :: "(Uint160 \<times> UnclaimedBalance list Account) list"
  mc_results :: "AppExecResult list"

type_synonym memStaged = "(Uint160 \<times> UnclaimedBalance list Account) list"

fun removeUnclaimed ::
  "UnclaimedBalance list \<Rightarrow> Uint256 \<Rightarrow> uint16 \<Rightarrow> bool \<times> UnclaimedBalance list" where
  "removeUnclaimed [] tx index = (False, [])"
| "removeUnclaimed (b # bs) tx index =
     (if ub_Tx b = tx \<and> ub_Index b = index then (True, bs)
      else (case removeUnclaimed bs tx index of (changed, bs1) \<Rightarrow> (changed, b # bs1)))"

definition mem_env ::
  "(VM \<Rightarrow> memCache \<Rightarrow> Block \<Rightarrow> Transaction \<Rightarrow> memStaged vm_result)
     \<Rightarrow> (memCache, UnclaimedBalance list, memStaged) env" where
  "mem_env run =
     \<lparr>CoinSpent = 2, CoinClaimed = 4, GoverningTokenID = [1],
      GetAccountStateOrNew = (\<lambda>c h. case map_of (mc_accounts c) h of
           None \<Rightarrow> Inr \<lparr>acc_ScriptHash = h, Balances = Map.empty, Unclaimed = []\<rparr>
         | Some a \<Rightarrow> Inr a),
      GetAccountState = (\<lambda>c h. case map_of (mc_accounts c) h of
           None \<Rightarrow> Inl (DaoError ''key not found'') | Some a \<Rightarrow> Inr a),
      PutAccountState = (\<lambda>c a. (None, c\<lparr>mc_accounts := (acc_ScriptHash a, a) # mc_accounts c\<rparr>)),
      GetUnspentCoinState = (\<lambda>c h. case map_of (mc_unspents c) h of
           None \<Rightarrow> Inl (DaoError ''key not found'') | Some u \<Rightarrow> Inr u),
      PutUnspentCoinState = (\<lambda>c h u. (None, c\<lparr>mc_unspents := (h, u) # mc_unspents c\<rparr>)),
      PutAppExecResult = (\<lambda>c aer. (None, c\<lparr>mc_results := aer # mc_results c\<rparr>)),
      UnclaimedPut = (\<lambda>u b. Inr (u @ [b])),
      UnclaimedRemove = removeUnclaimed,
      processTXWithValidatorsSubtract = (\<lambda>out acc c. (None, acc, c)),
      spawnVMWithInterops =
        (\<lambda>c b tx. \<lparr>checkedHash = [], script = [], priceGetter = False, gasLimit = 0\<rparr>),
      Run = run,
      Persist = (\<lambda>d c. (None, c\<lparr>mc_accounts := d @ mc_accounts c\<rparr>)),
      ToContractParameters = (\<lambda>st. []),
      BytesToInt = BytesToInt_le,
      processNEP5Transfer = (\<lambda>c tx b h from to amount. c)\<rparr>"

text \<open>Concrete inputs: a governing-token output owned by account 10, created by transaction 7.\<close>

definition neo_out :: Output where
  "neo_out = \<lparr>AssetID = [1], Amount = 100, ScriptHash = [10]\<rparr>"

definition coin_fresh :: UnspentCoin where
  "coin_fresh = \<lparr>Height = 3, States = [\<lparr>Output = neo_out, SpendHeight = 0, State = 0\<rparr>]\<rparr>"

definition coin_spent :: UnspentCoin where
  "coin_spent = \<lparr>Height = 3, States = [\<lparr>Output = neo_out, SpendHeight = 5, State = 2\<rparr>]\<rparr>"

definition owner_empty :: "UnclaimedBalance list Account" where
  "owner_empty = \<lparr>acc_ScriptHash = [10], Balances = Map.empty, Unclaimed = []\<rparr>"

definition owner_unclaimed :: "UnclaimedBalance list Account" where
  "owner_unclaimed = \<lparr>acc_ScriptHash = [10], Balances = Map.empty,
     Unclaimed = [\<lparr>ub_Tx = [7], ub_Index = 0, ub_Start = 3, ub_End = 5, ub_Value = 100\<rparr>]\<rparr>"

definition cache_fresh :: memCache where
  "cache_fresh = \<lparr>mc_unspents = [([7], coin_fresh)], mc_accounts = [([10], owner_empty)],
                  mc_results = []\<rparr>"

definition cache_spent :: memCache where
  "cache_spent = \<lparr>mc_unspents = [([7], coin_spent)], mc_accounts = [([10], owner_unclaimed)],
                  mc_results = []\<rparr>"

definition in7 :: Input where
  "in7 = \<lparr>PrevHash = [7], PrevIndex = 0\<rparr>"

definition in_unknown :: Input where
  "in_unknown = \<lparr>PrevHash = [8], PrevIndex = 0\<rparr>"

definition blk9 :: Block where
  "blk9 = \<lparr>Index = 9\<rparr>"

definition tx42 :: Transaction where
  "tx42 = \<lparr>Hash = [42], VerificationHash = [43]\<rparr>"

definition strict_off :: Config where
  "strict_off = \<lparr>VerifyTransactions = False, FreeGasLimit = 0\<rparr>"

definition strict_on :: Config where
  "strict_on = \<lparr>VerifyTransactions = True, FreeGasLimit = 10\<rparr>"

text \<open>
  Two VM runs for the examples: one that halts, and one that faults after staging an
  account write and consuming as much gas as its limit, so that the stored result shows
  the limit it ran under.
\<close>

definition halt_run :: "VM \<Rightarrow> memCache \<Rightarrow> Block \<Rightarrow> Transaction \<Rightarrow> memStaged vm_result" where
  "halt_run v c b tx = \<lparr>run_err = None, run_state = HALT, run_gasConsumed = gasLimit v,
                        run_estack = [], run_dao = [([10], owner_unclaimed)],
                        run_notifications = []\<rparr>"

definition fault_run :: "VM \<Rightarrow> memCache \<Rightarrow> Block \<Rightarrow> Transaction \<Rightarrow> memStaged vm_result" where
  "fault_run v c b tx = \<lparr>run_err = Some (VMError ''fault''), run_state = FAULT,
                         run_gasConsumed = gasLimit v, run_estack = [],
                         run_dao = [([10], owner_unclaimed)], run_notifications = []\<rparr>"

section \<open>The VM: integer arithmetic\<close>

text \<open>
  Modelled from the spec: the VM itself (its opcode handlers and \<^verbatim>\<open>checkBigIntSize\<close>) is
  not among the source files, only its tests are. 4.1: "Integer magnitude \<le> 256 bits
  (configurable MaxBigIntegerSizeBits)"; 8: "ADD/SUB/MUL/SHL that would exceed
  MaxBigIntegerSizeBits FAULT; operands at the boundary succeed". The size of an integer
  is the bit length of its magnitude, as the tests require: \<^verbatim>\<open>2^256 - 1\<close> and its
  negation are accepted, \<^verbatim>\<open>2^256\<close> is not. \<^verbatim>\<open>None\<close> is FAULT.
\<close>

definition MaxBigIntegerSizeBits :: nat where
  "MaxBigIntegerSizeBits = 256"

fun BitLen :: "nat \<Rightarrow> nat" where
  "BitLen n = (if n = 0 then 0 else Suc (BitLen (n div 2)))"

declare BitLen.simps [simp del]

definition checkBigIntSize :: "int \<Rightarrow> bool" where
  "checkBigIntSize a = (BitLen (nat \<bar>a\<bar>) \<le> MaxBigIntegerSizeBits)"

text \<open>
  Modelled from the spec: a binary arithmetic opcode pops \<^verbatim>\<open>b\<close> and \<^verbatim>\<open>a\<close>, checks each
  operand, computes, and checks the result before pushing it.
\<close>

definition arith :: "(int \<Rightarrow> int \<Rightarrow> int) \<Rightarrow> int \<Rightarrow> int \<Rightarrow> int option" where
  "arith f a b =
     (if \<not> checkBigIntSize a then None
      else if \<not> checkBigIntSize b then None
      else (let c = f a b in if checkBigIntSize c then Some c else None))"


definition SUB :: "int \<Rightarrow> int \<Rightarrow> int option" where
  "SUB = arith (-)"


text \<open>
  Modelled from the spec: SHL shifts \<^verbatim>\<open>a\<close> by \<^verbatim>\<open>b\<close> bits. The spec gives SHL one fault, the
  cap, for every pair of integers, so the shift is the one of arbitrary-precision
  integers: \<^verbatim>\<open>a * 2^b\<close>, rounded down when the count \<^verbatim>\<open>b\<close> is below zero (a shift to the
  right by \<^verbatim>\<open>-b\<close>). The tests run SHL with counts from 0 on only. \<^verbatim>\<open>TestSHLBigValue\<close>
  shifts 5 by \<^verbatim>\<open>maxSHLArg + 1\<close> and expects a FAULT; the constant \<^verbatim>\<open>maxSHLArg\<close> is not
  among the source files, and under the cap a non-zero integer shifted by
  MaxBigIntegerSizeBits bits or more is too big whatever its value.
\<close>

definition shl :: "int \<Rightarrow> int \<Rightarrow> int" where
  "shl a n = (if 0 \<le> n then a * 2 ^ nat n else a div 2 ^ nat (- n))"

definition SHL :: "int \<Rightarrow> int \<Rightarrow> int option" where
  "SHL = arith shl"


definition DEC :: "int \<Rightarrow> int option" where
  "DEC a = SUB a 1"

section \<open>The VM: serialization of stack items\<close>

text \<open>
  Modelled from the spec: the serializer behind \<^verbatim>\<open>Neo.Runtime.Serialize\<close> and
  \<^verbatim>\<open>Neo.Runtime.Deserialize\<close> is not among the source files. 6: "fixed-little-endian
  integers, length-prefixed byte strings (var-int length)". An integer is written as its
  shortest little-endian two's complement, zero as no byte at all.
\<close>

function twos :: "int \<Rightarrow> bytes" where
  "twos n = (if - 128 \<le> n \<and> n < 128 then [word_of_int n]
             else word_of_int n # twos (n div 256))"
  by pat_completeness auto
termination
  by (relation "measure (\<lambda>n. nat \<bar>n\<bar>)") auto

declare twos.simps [simp del]

definition IntToBytes :: "int \<Rightarrow> bytes" where
  "IntToBytes n = (if n = 0 then [] else twos n)"

fun le_bytes :: "nat \<Rightarrow> nat \<Rightarrow> bytes" where
  "le_bytes 0 n = []"
| "le_bytes (Suc k) n = of_nat (n mod 256) # le_bytes k (n div 256)"

text \<open>
  Modelled from the spec: the var-int: one byte below 253, else a marker byte 253, 254 or
  255 and the value in 2, 4 or 8 little-endian bytes.
\<close>

definition WriteVarUint :: "nat \<Rightarrow> bytes" where
  "WriteVarUint n =
     (if n < 253 then [of_nat n]
      else if n < 65536 then 253 # le_bytes 2 n
      else if n < 4294967296 then 254 # le_bytes 4 n
      else 255 # le_bytes 8 n)"

definition readLE :: "nat \<Rightarrow> bytes \<Rightarrow> (nat \<times> bytes) option" where
  "readLE k bs = (if length bs < k then None else Some (le_nat (take k bs), drop k bs))"

definition ReadVarUint :: "bytes \<Rightarrow> (nat \<times> bytes) option" where
  "ReadVarUint bs =
     (case bs of
        [] \<Rightarrow> None
      | b # r \<Rightarrow>
          if b = 253 then readLE 2 r
          else if b = 254 then readLE 4 r
          else if b = 255 then readLE 8 r
          else Some (unat b, r))"

definition WriteVarBytes :: "bytes \<Rightarrow> bytes" where
  "WriteVarBytes bs = WriteVarUint (length bs) @ bs"

definition ReadVarBytes :: "bytes \<Rightarrow> (bytes \<times> bytes) option" where
  "ReadVarBytes bs =
     (case ReadVarUint bs of
        None \<Rightarrow> None
      | Some (n, r) \<Rightarrow> if length r < n then None else Some (take n r, drop n r))"

definition serializePair :: "bytes option \<Rightarrow> bytes option \<Rightarrow> bytes option" where
  "serializePair a b =
     (case a of None \<Rightarrow> None | Some x \<Rightarrow> (case b of None \<Rightarrow> None | Some y \<Rightarrow> Some (x @ y)))"

text \<open>
  Modelled from the spec: an item is written as a type byte and its content; a compound
  item as its element count and its elements, a map as its entries, key before value.
  The type bytes of byte arrays (\<^verbatim>\<open>0x28\<close>) and maps (\<^verbatim>\<open>0x48\<close>) are those of
  \<^verbatim>\<open>TestSerializeMapCompat\<close>; the others are distinct bytes. An interop handle cannot be
  written (\<^verbatim>\<open>TestSerializeInterop\<close>); the items the round trip covers are booleans,
  integers, byte arrays, arrays, structs and maps.
\<close>

fun serializeItem :: "StackItem \<Rightarrow> bytes option" where
  "serializeItem (ByteArrayItem bs) = Some (40 # WriteVarBytes bs)"
| "serializeItem (BoolItem b) = Some [32, if b then 1 else 0]"
| "serializeItem (BigIntegerItem n) = Some (33 # WriteVarBytes (IntToBytes n))"
| "serializeItem (ArrayItem xs) =
     map_option (\<lambda>bss. 64 # WriteVarUint (length xs) @ concat bss)
       (those (map serializeItem xs))"
| "serializeItem (StructItem xs) =
     map_option (\<lambda>bss. 65 # WriteVarUint (length xs) @ concat bss)
       (those (map serializeItem xs))"
| "serializeItem (MapItem kvs) =
     map_option (\<lambda>bss. 72 # WriteVarUint (length kvs) @ concat bss)
       (those (map (\<lambda>kv. serializePair (serializeItem (fst kv)) (serializeItem (snd kv))) kvs))"
| "serializeItem (InteropItem h) = None"
| "serializeItem NullItem = None"

text \<open>
  Modelled from the spec: the reader. Its first argument bounds the nesting depth; every
  level of nesting consumes at least one byte, so the length of the input is enough.
\<close>

fun readItem :: "nat \<Rightarrow> bytes \<Rightarrow> (StackItem \<times> bytes) option"
and readItems :: "nat \<Rightarrow> nat \<Rightarrow> bytes \<Rightarrow> (StackItem list \<times> bytes) option"
and readPairs :: "nat \<Rightarrow> nat \<Rightarrow> bytes \<Rightarrow> ((StackItem \<times> StackItem) list \<times> bytes) option"
where
  "readItem 0 bs = None"
| "readItem (Suc n) [] = None"
| "readItem (Suc n) (t # bs) =
     (if t = 40 then
        (case ReadVarBytes bs of None \<Rightarrow> None | Some (b, r) \<Rightarrow> Some (ByteArrayItem b, r))
      else if t = 32 then
        (case bs of [] \<Rightarrow> None | b # r \<Rightarrow> Some (BoolItem (b \<noteq> 0), r))
      else if t = 33 then
        (case ReadVarBytes bs of
           None \<Rightarrow> None
         | Some (b, r) \<Rightarrow> Some (BigIntegerItem (BytesToInt_le b), r))
      else if t = 64 then
        (case ReadVarUint bs of
           None \<Rightarrow> None
         | Some (k, r) \<Rightarrow>
             (case readItems n k r of None \<Rightarrow> None | Some (xs, r1) \<Rightarrow> Some (ArrayItem xs, r1)))
      else if t = 65 then
        (case ReadVarUint bs of
           None \<Rightarrow> None
         | Some (k, r) \<Rightarrow>
             (case readItems n k r of None \<Rightarrow> None | Some (xs, r1) \<Rightarrow> Some (StructItem xs, r1)))
      else if t = 72 then
        (case ReadVarUint bs of
           None \<Rightarrow> None
         | Some (k, r) \<Rightarrow>
             (case readPairs n k r of None \<Rightarrow> None | Some (kvs, r1) \<Rightarrow> Some (MapItem kvs, r1)))
      else None)"
| "readItems n 0 bs = Some ([], bs)"
| "readItems n (Suc k) bs =
     (case readItem n bs of
        None \<Rightarrow> None
      | Some (x, r) \<Rightarrow>
          (case readItems n k r of None \<Rightarrow> None | Some (xs, r1) \<Rightarrow> Some (x # xs, r1)))"
| "readPairs n 0 bs = Some ([], bs)"
| "readPairs n (Suc k) bs =
     (case readItem n bs of
        None \<Rightarrow> None
      | Some (key, r) \<Rightarrow>
          (case readItem n r of
             None \<Rightarrow> None
           | Some (v, r1) \<Rightarrow>
               (case readPairs n k r1 of
                  None \<Rightarrow> None
                | Some (kvs, r2) \<Rightarrow> Some ((key, v) # kvs, r2))))"

definition DeserializeItem :: "bytes \<Rightarrow> StackItem option" where
  "DeserializeItem bs =
     (case readItem (Suc (length bs)) bs of
        Some (x, []) \<Rightarrow> Some x
      | _ \<Rightarrow> None)"

text \<open>
  The items the serializer accepts, and the items whose lengths and counts fit the
  eight bytes of the largest var-int (every item the VM can hold does, being bounded by
  MaxItemSize and MaxArraySize).
\<close>

fun serializable :: "StackItem \<Rightarrow> bool" where
  "serializable (ArrayItem xs) = list_all serializable xs"
| "serializable (StructItem xs) = list_all serializable xs"
| "serializable (MapItem kvs) =
     list_all (\<lambda>kv. serializable (fst kv) \<and> serializable (snd kv)) kvs"
| "serializable (InteropItem i) = False"
| "serializable NullItem = False"
| "serializable _ = True"

fun sizes_ok :: "StackItem \<Rightarrow> bool" where
  "sizes_ok (ByteArrayItem bs) = (length bs < 2 ^ 64)"
| "sizes_ok (BigIntegerItem n) = (length (IntToBytes n) < 2 ^ 64)"
| "sizes_ok (ArrayItem xs) = (length xs < 2 ^ 64 \<and> list_all sizes_ok xs)"
| "sizes_ok (StructItem xs) = (length xs < 2 ^ 64 \<and> list_all sizes_ok xs)"
| "sizes_ok (MapItem kvs) =
     (length kvs < 2 ^ 64 \<and> list_all (\<lambda>kv. sizes_ok (fst kv) \<and> sizes_ok (snd kv)) kvs)"
| "sizes_ok _ = True"

fun tsize :: "StackItem \<Rightarrow> nat" where
  "tsize (ArrayItem xs) = Suc (sum_list (map (\<lambda>x. Suc (tsize x)) xs))"
| "tsize (StructItem xs) = Suc (sum_list (map (\<lambda>x. Suc (tsize x)) xs))"
| "tsize (MapItem kvs) =
     Suc (sum_list (map (\<lambda>kv. Suc (tsize (fst kv) + tsize (snd kv))) kvs))"
| "tsize _ = 0"

section \<open>The VM: stacks, heap and instructions\<close>

text \<open>
  Modelled from the spec: the VM is not among the source files; the model covers the
  instructions and syscalls that the cited tests of the repository run. 3: a stack item
  is an integer, boolean, byte array, null, or a compound item or interop handle held by
  reference ("reference identity preserved under DUP; structs copy-on-reference"). A slot
  of a stack or of a compound item holds a primitive value or a reference; the referenced
  objects live in a heap, addressed by their position, and are never freed. A map keeps
  its entries as a list, a new key at the end (\<^verbatim>\<open>TestPICKITEMDupMap\<close> reads the value of
  a map as \<^verbatim>\<open>[]MapElement\<close>).
\<close>

datatype Slot = IntV int | BoolV bool | BytesV bytes | NullV | Ref nat

datatype Object =
    ArrayObj "Slot list"
  | StructObj "Slot list"
  | MapObj "(Slot \<times> Slot) list"
  | InteropObj nat
  | IteratorObj "(Slot \<times> Slot) list" nat

datatype Syscall =
    RuntimeSerialize | RuntimeDeserialize
  | IteratorCreate | IteratorKeys | IteratorValues | IteratorKey
  | EnumeratorCreate | EnumeratorNext | EnumeratorValue

datatype Instr =
    PUSHINT int | PUSHDATA bytes | PUSHNULL
  | DUP | DROP | SWAP | TOALTSTACK | FROMALTSTACK | DUPFROMALTSTACK
  | NEWARRAY | NEWSTRUCT | NEWMAP | PACK | APPEND | SETITEM | REMOVE
  | SYSCALL Syscall | RET

record vmst =
  estack :: "Slot list"
  astack :: "Slot list"
  heap :: "Object list"
  gasConsumed :: nat

text \<open>
  Modelled from the spec: what a run is given from outside (4.1): the bound on the live
  item count ("MaxStackSize (\<approx> 2048)"), the gas limit (0 for none) and the price of an
  instruction.
\<close>

record VMConfig =
  MaxStackSize :: nat
  GasLimit :: nat
  getPrice :: "Instr \<Rightarrow> nat"

subsection \<open>The live item count\<close>

text \<open>
  Modelled from the spec: 4.1, "Stack-size accounting": the count reflects the "items
  reachable from any stack frame including alt stacks and inside compound items; cyclic
  compound items are counted once via identity tracking". Every stack slot counts one,
  and every compound item reachable from the stacks counts its elements once, however
  many references lead to it (the sizes \<^verbatim>\<open>TestStackLimit\<close> expects).
\<close>

fun slot_refs :: "Slot \<Rightarrow> nat list" where
  "slot_refs (Ref a) = [a]"
| "slot_refs _ = []"

fun object_slots :: "Object \<Rightarrow> Slot list" where
  "object_slots (ArrayObj xs) = xs"
| "object_slots (StructObj xs) = xs"
| "object_slots (MapObj kvs) = map snd kvs"
| "object_slots (InteropObj h) = []"
| "object_slots (IteratorObj es pos) = []"

definition refs_of :: "Object list \<Rightarrow> nat \<Rightarrow> nat list" where
  "refs_of h a = (if a < length h then concat (map slot_refs (object_slots (h ! a))) else [])"

definition expand :: "Object list \<Rightarrow> nat list \<Rightarrow> nat list" where
  "expand h as = remdups (as @ concat (map (refs_of h) as))"

fun reach :: "nat \<Rightarrow> Object list \<Rightarrow> nat list \<Rightarrow> nat list" where
  "reach 0 h as = as"
| "reach (Suc n) h as = reach n h (expand h as)"

definition reachable :: "Object list \<Rightarrow> Slot list \<Rightarrow> nat list" where
  "reachable h roots =
     reach (length h) h (remdups (filter (\<lambda>a. a < length h) (concat (map slot_refs roots))))"

definition itemCount :: "vmst \<Rightarrow> nat" where
  "itemCount s =
     length (estack s) + length (astack s)
     + sum_list (map (\<lambda>a. length (object_slots (heap s ! a)))
                  (reachable (heap s) (estack s @ astack s)))"

subsection \<open>Struct copies and snapshots\<close>

text \<open>
  Modelled from the spec: 4.1, "APPEND / SETITEM on Struct": a struct put into a container
  is deep-cloned, with a bounded budget; arrays and maps inside it stay shared.
\<close>

fun clone :: "nat \<Rightarrow> Object list \<Rightarrow> Slot \<Rightarrow> (Object list \<times> Slot) option"
and cloneList :: "nat \<Rightarrow> Object list \<Rightarrow> Slot list \<Rightarrow> (Object list \<times> Slot list) option"
where
  "clone 0 h x = None"
| "clone (Suc n) h (Ref a) =
     (if length h \<le> a then None
      else (case h ! a of
              StructObj xs \<Rightarrow>
                (case cloneList n h xs of
                   None \<Rightarrow> None
                 | Some (h1, ys) \<Rightarrow> Some (h1 @ [StructObj ys], Ref (length h1)))
            | _ \<Rightarrow> Some (h, Ref a)))"
| "clone (Suc n) h (IntV i) = Some (h, IntV i)"
| "clone (Suc n) h (BoolV b) = Some (h, BoolV b)"
| "clone (Suc n) h (BytesV b) = Some (h, BytesV b)"
| "clone (Suc n) h NullV = Some (h, NullV)"
| "cloneList n h [] = Some (h, [])"
| "cloneList n h (x # xs) =
     (case clone n h x of
        None \<Rightarrow> None
      | Some (h1, y) \<Rightarrow>
          (case cloneList n h1 xs of None \<Rightarrow> None | Some (h2, ys) \<Rightarrow> Some (h2, y # ys)))"

definition snapPair ::
  "StackItem option \<Rightarrow> StackItem option \<Rightarrow> (StackItem \<times> StackItem) option" where
  "snapPair a b =
     (case a of None \<Rightarrow> None | Some k \<Rightarrow> (case b of None \<Rightarrow> None | Some v \<Rightarrow> Some (k, v)))"

text \<open>
  Modelled from the spec: 9, "Cyclic stack items": "serialization must detect cycles (FAULT
  on attempt)" with "identity-keyed visited sets". The serializer walks the item with the
  addresses on the path from the root; meeting one of them again is a cycle. The walk
  yields the item as a value, with everything it references written out.
\<close>

fun toTree :: "nat \<Rightarrow> Object list \<Rightarrow> nat list \<Rightarrow> Slot \<Rightarrow> StackItem option" where
  "toTree 0 h seen x = None"
| "toTree (Suc n) h seen (IntV i) = Some (BigIntegerItem i)"
| "toTree (Suc n) h seen (BoolV b) = Some (BoolItem b)"
| "toTree (Suc n) h seen (BytesV b) = Some (ByteArrayItem b)"
| "toTree (Suc n) h seen NullV = Some NullItem"
| "toTree (Suc n) h seen (Ref a) =
     (if a \<in> set seen \<or> length h \<le> a then None
      else (case h ! a of
              ArrayObj xs \<Rightarrow> map_option ArrayItem (those (map (toTree n h (a # seen)) xs))
            | StructObj xs \<Rightarrow> map_option StructItem (those (map (toTree n h (a # seen)) xs))
            | MapObj kvs \<Rightarrow>
                map_option MapItem
                  (those (map (\<lambda>kv. snapPair (toTree n h (a # seen) (fst kv))
                                              (toTree n h (a # seen) (snd kv))) kvs))
            | InteropObj i \<Rightarrow> Some (InteropItem i)
            | IteratorObj es pos \<Rightarrow> Some (InteropItem 0)))"

text \<open>The deserializer builds the item it has read in fresh heap objects.\<close>

function (sequential) fromTree :: "Object list \<Rightarrow> StackItem \<Rightarrow> Object list \<times> Slot"
and fromTrees :: "Object list \<Rightarrow> StackItem list \<Rightarrow> Object list \<times> Slot list"
and fromPairs ::
  "Object list \<Rightarrow> (StackItem \<times> StackItem) list \<Rightarrow> Object list \<times> (Slot \<times> Slot) list"
where
  "fromTree h (BigIntegerItem i) = (h, IntV i)"
| "fromTree h (BoolItem b) = (h, BoolV b)"
| "fromTree h (ByteArrayItem b) = (h, BytesV b)"
| "fromTree h NullItem = (h, NullV)"
| "fromTree h (InteropItem i) = (h @ [InteropObj i], Ref (length h))"
| "fromTree h (ArrayItem xs) =
     (case fromTrees h xs of (h1, ys) \<Rightarrow> (h1 @ [ArrayObj ys], Ref (length h1)))"
| "fromTree h (StructItem xs) =
     (case fromTrees h xs of (h1, ys) \<Rightarrow> (h1 @ [StructObj ys], Ref (length h1)))"
| "fromTree h (MapItem kvs) =
     (case fromPairs h kvs of (h1, ys) \<Rightarrow> (h1 @ [MapObj ys], Ref (length h1)))"
| "fromTrees h [] = (h, [])"
| "fromTrees h (x # xs) =
     (case fromTree h x of (h1, y) \<Rightarrow>
        (case fromTrees h1 xs of (h2, ys) \<Rightarrow> (h2, y # ys)))"
| "fromPairs h [] = (h, [])"
| "fromPairs h ((tk, tv) # kvs) =
     (case fromTree h tk of (h1, k) \<Rightarrow>
        (case fromTree h1 tv of (h2, v) \<Rightarrow>
           (case fromPairs h2 kvs of (h3, ys) \<Rightarrow> (h3, (k, v) # ys))))"
  by pat_completeness auto
termination
  by (relation "measure (\<lambda>x. case x of
          Inl (h, t) \<Rightarrow> 2 * tsize t
        | Inr (Inl (h, ts)) \<Rightarrow> Suc (2 * sum_list (map (\<lambda>x. Suc (tsize x)) ts))
        | Inr (Inr (h, kvs)) \<Rightarrow>
            Suc (2 * sum_list (map (\<lambda>kv. Suc (tsize (fst kv) + tsize (snd kv))) kvs)))")
     auto

text \<open>
  What it means for a slot to denote a value: the finite tree obtained by following every
  reference. A slot from which a compound item can be reached that contains itself has no
  such tree; two slots are deeply equal when they denote the same tree.
\<close>

inductive unfolds :: "Object list \<Rightarrow> Slot \<Rightarrow> StackItem \<Rightarrow> bool" for h where
  u_int: "unfolds h (IntV i) (BigIntegerItem i)"
| u_bool: "unfolds h (BoolV b) (BoolItem b)"
| u_bytes: "unfolds h (BytesV bs) (ByteArrayItem bs)"
| u_null: "unfolds h NullV NullItem"
| u_array: "a < length h \<Longrightarrow> h ! a = ArrayObj xs \<Longrightarrow> list_all2 (unfolds h) xs ts
     \<Longrightarrow> unfolds h (Ref a) (ArrayItem ts)"
| u_struct: "a < length h \<Longrightarrow> h ! a = StructObj xs \<Longrightarrow> list_all2 (unfolds h) xs ts
     \<Longrightarrow> unfolds h (Ref a) (StructItem ts)"
| u_map: "a < length h \<Longrightarrow> h ! a = MapObj kvs
     \<Longrightarrow> list_all2 (\<lambda>kv t. unfolds h (fst kv) (fst t) \<and> unfolds h (snd kv) (snd t)) kvs ts
     \<Longrightarrow> unfolds h (Ref a) (MapItem ts)"
| u_interop: "a < length h \<Longrightarrow> h ! a = InteropObj i \<Longrightarrow> unfolds h (Ref a) (InteropItem i)"
| u_iterator: "a < length h \<Longrightarrow> h ! a = IteratorObj es pos
     \<Longrightarrow> unfolds h (Ref a) (InteropItem 0)"

fun setEntry :: "(Slot \<times> Slot) list \<Rightarrow> Slot \<Rightarrow> Slot \<Rightarrow> (Slot \<times> Slot) list" where
  "setEntry [] k v = [(k, v)]"
| "setEntry (e # es) k v = (if fst e = k then (k, v) # es else e # setEntry es k v)"

definition newCompound :: "bool \<Rightarrow> Slot list \<Rightarrow> Object" where
  "newCompound isStruct xs = (if isStruct then StructObj xs else ArrayObj xs)"

text \<open>
  Modelled from the spec: NEWARRAY and NEWSTRUCT make a compound item of \<^verbatim>\<open>n\<close> items
  \<^verbatim>\<open>false\<close> (\<^verbatim>\<open>TestNEWARRAYInteger\<close>), or convert an array into a struct and back by
  copying its items (\<^verbatim>\<open>TestStackLimit\<close>: "all items are copied").
\<close>

definition execNew :: "bool \<Rightarrow> vmst \<Rightarrow> vmst option" where
  "execNew isStruct s =
     (case estack s of
        IntV n # rest \<Rightarrow>
          if n < 0 then None
          else Some (s\<lparr>estack := Ref (length (heap s)) # rest,
                      heap := heap s @ [newCompound isStruct (replicate (nat n) (BoolV False))]\<rparr>)
      | Ref a # rest \<Rightarrow>
          if length (heap s) \<le> a then None
          else (case heap s ! a of
                  ArrayObj xs \<Rightarrow>
                    if isStruct
                    then Some (s\<lparr>estack := Ref (length (heap s)) # rest,
                                 heap := heap s @ [StructObj xs]\<rparr>)
                    else Some s
                | StructObj xs \<Rightarrow>
                    if isStruct then Some s
                    else Some (s\<lparr>estack := Ref (length (heap s)) # rest,
                                 heap := heap s @ [ArrayObj xs]\<rparr>)
                | _ \<Rightarrow> None)
      | _ \<Rightarrow> None)"

text \<open>
  Modelled from the spec: APPEND adds an item to the array or struct referenced below it;
  a struct is cloned first (\<^verbatim>\<open>TestAPPENDCloneStruct\<close>).
\<close>

definition execAppend :: "vmst \<Rightarrow> vmst option" where
  "execAppend s =
     (case estack s of
        x # Ref a # rest \<Rightarrow>
          if length (heap s) \<le> a then None
          else (case clone (Suc (length (heap s))) (heap s) x of
                  None \<Rightarrow> None
                | Some (h1, y) \<Rightarrow>
                    (case heap s ! a of
                       ArrayObj xs \<Rightarrow> Some (s\<lparr>estack := rest, heap := h1[a := ArrayObj (xs @ [y])]\<rparr>)
                     | StructObj xs \<Rightarrow> Some (s\<lparr>estack := rest, heap := h1[a := StructObj (xs @ [y])]\<rparr>)
                     | _ \<Rightarrow> None))
      | _ \<Rightarrow> None)"

text \<open>
  Modelled from the spec: SETITEM stores a value under a key of a map, or at an index of
  an array or struct; REMOVE deletes the entry.
\<close>

definition execSetItem :: "vmst \<Rightarrow> vmst option" where
  "execSetItem s =
     (case estack s of
        v # k # Ref a # rest \<Rightarrow>
          if length (heap s) \<le> a then None
          else (case clone (Suc (length (heap s))) (heap s) v of
                  None \<Rightarrow> None
                | Some (h1, y) \<Rightarrow>
                    (case heap s ! a of
                       MapObj kvs \<Rightarrow>
                         (case k of
                            Ref b \<Rightarrow> None
                          | _ \<Rightarrow> Some (s\<lparr>estack := rest, heap := h1[a := MapObj (setEntry kvs k y)]\<rparr>))
                     | ArrayObj xs \<Rightarrow>
                         (case k of
                            IntV i \<Rightarrow>
                              if 0 \<le> i \<and> nat i < length xs
                              then Some (s\<lparr>estack := rest, heap := h1[a := ArrayObj (xs[nat i := y])]\<rparr>)
                              else None
                          | _ \<Rightarrow> None)
                     | StructObj xs \<Rightarrow>
                         (case k of
                            IntV i \<Rightarrow>
                              if 0 \<le> i \<and> nat i < length xs
                              then Some (s\<lparr>estack := rest, heap := h1[a := StructObj (xs[nat i := y])]\<rparr>)
                              else None
                          | _ \<Rightarrow> None)
                     | _ \<Rightarrow> None))
      | _ \<Rightarrow> None)"

definition dropAt :: "nat \<Rightarrow> 'a list \<Rightarrow> 'a list" where
  "dropAt i xs = take i xs @ drop (Suc i) xs"

definition execRemove :: "vmst \<Rightarrow> vmst option" where
  "execRemove s =
     (case estack s of
        k # Ref a # rest \<Rightarrow>
          if length (heap s) \<le> a then None
          else (case heap s ! a of
                  MapObj kvs \<Rightarrow>
                    Some (s\<lparr>estack := rest,
                            heap := (heap s)[a := MapObj (filter (\<lambda>e. fst e \<noteq> k) kvs)]\<rparr>)
                | ArrayObj xs \<Rightarrow>
                    (case k of
                       IntV i \<Rightarrow>
                         if 0 \<le> i \<and> nat i < length xs
                         then Some (s\<lparr>estack := rest, heap := (heap s)[a := ArrayObj (dropAt (nat i) xs)]\<rparr>)
                         else None
                     | _ \<Rightarrow> None)
                | StructObj xs \<Rightarrow>
                    (case k of
                       IntV i \<Rightarrow>
                         if 0 \<le> i \<and> nat i < length xs
                         then Some (s\<lparr>estack := rest, heap := (heap s)[a := StructObj (dropAt (nat i) xs)]\<rparr>)
                         else None
                     | _ \<Rightarrow> None)
                | _ \<Rightarrow> None)
      | _ \<Rightarrow> None)"

text \<open>
  Modelled from the spec: the syscalls. An iterator over an array enumerates index and
  item; an iterator over a map enumerates its entries in the order the map keeps them.
  \<^verbatim>\<open>Next\<close> advances and tells whether there is a current entry, \<^verbatim>\<open>Value\<close> and \<^verbatim>\<open>Key\<close>
  read it (\<^verbatim>\<open>testIterableCreate\<close>, \<^verbatim>\<open>TestIteratorKeys\<close>, \<^verbatim>\<open>TestIteratorValues\<close>).
  \<^verbatim>\<open>Serialize\<close> replaces the top item by its bytes and faults on a cycle or an interop
  handle; \<^verbatim>\<open>Deserialize\<close> replaces bytes by the item they encode.
\<close>

definition indexed :: "Slot list \<Rightarrow> (Slot \<times> Slot) list" where
  "indexed xs = zip (map (\<lambda>i. IntV (int i)) [0..<length xs]) xs"

definition Serialize :: "Object list \<Rightarrow> Slot \<Rightarrow> bytes option" where
  "Serialize h x =
     (case toTree (Suc (length h)) h [] x of None \<Rightarrow> None | Some t \<Rightarrow> serializeItem t)"

fun execSyscall :: "VMConfig \<Rightarrow> Syscall \<Rightarrow> vmst \<Rightarrow> vmst option" where
  "execSyscall C RuntimeSerialize s =
     (case estack s of
        x # rest \<Rightarrow>
          (case Serialize (heap s) x of
             None \<Rightarrow> None
           | Some bs \<Rightarrow> Some (s\<lparr>estack := BytesV bs # rest\<rparr>))
      | _ \<Rightarrow> None)"
| "execSyscall C RuntimeDeserialize s =
     (case estack s of
        BytesV bs # rest \<Rightarrow>
          (case DeserializeItem bs of
             None \<Rightarrow> None
           | Some t \<Rightarrow>
               (case fromTree (heap s) t of (h1, x) \<Rightarrow> Some (s\<lparr>estack := x # rest, heap := h1\<rparr>)))
      | _ \<Rightarrow> None)"
| "execSyscall C IteratorCreate s =
     (case estack s of
        Ref a # rest \<Rightarrow>
          if length (heap s) \<le> a then None
          else (case heap s ! a of
                  ArrayObj xs \<Rightarrow>
                    Some (s\<lparr>estack := Ref (length (heap s)) # rest,
                            heap := heap s @ [IteratorObj (indexed xs) 0]\<rparr>)
                | StructObj xs \<Rightarrow>
                    Some (s\<lparr>estack := Ref (length (heap s)) # rest,
                            heap := heap s @ [IteratorObj (indexed xs) 0]\<rparr>)
                | MapObj kvs \<Rightarrow>
                    Some (s\<lparr>estack := Ref (length (heap s)) # rest,
                            heap := heap s @ [IteratorObj kvs 0]\<rparr>)
                | _ \<Rightarrow> None)
      | _ \<Rightarrow> None)"
| "execSyscall C EnumeratorCreate s =
     (case estack s of
        Ref a # rest \<Rightarrow>
          if length (heap s) \<le> a then None
          else (case heap s ! a of
                  ArrayObj xs \<Rightarrow>
                    Some (s\<lparr>estack := Ref (length (heap s)) # rest,
                            heap := heap s @ [IteratorObj (indexed xs) 0]\<rparr>)
                | StructObj xs \<Rightarrow>
                    Some (s\<lparr>estack := Ref (length (heap s)) # rest,
                            heap := heap s @ [IteratorObj (indexed xs) 0]\<rparr>)
                | _ \<Rightarrow> None)
      | _ \<Rightarrow> None)"
| "execSyscall C IteratorValues s =
     (case estack s of
        Ref a # rest \<Rightarrow>
          if length (heap s) \<le> a then None
          else (case heap s ! a of
                  IteratorObj es pos \<Rightarrow>
                    Some (s\<lparr>estack := Ref (length (heap s)) # rest,
                            heap := heap s @ [IteratorObj es pos]\<rparr>)
                | _ \<Rightarrow> None)
      | _ \<Rightarrow> None)"
| "execSyscall C IteratorKeys s =
     (case estack s of
        Ref a # rest \<Rightarrow>
          if length (heap s) \<le> a then None
          else (case heap s ! a of
                  IteratorObj es pos \<Rightarrow>
                    Some (s\<lparr>estack := Ref (length (heap s)) # rest,
                            heap := heap s @ [IteratorObj (map (\<lambda>e. (fst e, fst e)) es) pos]\<rparr>)
                | _ \<Rightarrow> None)
      | _ \<Rightarrow> None)"
| "execSyscall C EnumeratorNext s =
     (case estack s of
        Ref a # rest \<Rightarrow>
          if length (heap s) \<le> a then None
          else (case heap s ! a of
                  IteratorObj es pos \<Rightarrow>
                    if pos < length es
                    then Some (s\<lparr>estack := BoolV True # rest,
                                 heap := (heap s)[a := IteratorObj es (Suc pos)]\<rparr>)
                    else Some (s\<lparr>estack := BoolV False # rest\<rparr>)
                | _ \<Rightarrow> None)
      | _ \<Rightarrow> None)"
| "execSyscall C EnumeratorValue s =
     (case estack s of
        Ref a # rest \<Rightarrow>
          if length (heap s) \<le> a then None
          else (case heap s ! a of
                  IteratorObj es pos \<Rightarrow>
                    if 0 < pos \<and> pos \<le> length es
                    then Some (s\<lparr>estack := snd (es ! (pos - 1)) # rest\<rparr>)
                    else None
                | _ \<Rightarrow> None)
      | _ \<Rightarrow> None)"
| "execSyscall C IteratorKey s =
     (case estack s of
        Ref a # rest \<Rightarrow>
          if length (heap s) \<le> a then None
          else (case heap s ! a of
                  IteratorObj es pos \<Rightarrow>
                    if 0 < pos \<and> pos \<le> length es
                    then Some (s\<lparr>estack := fst (es ! (pos - 1)) # rest\<rparr>)
                    else None
                | _ \<Rightarrow> None)
      | _ \<Rightarrow> None)"

text \<open>
  Modelled from the spec: one instruction on the VM state; \<^verbatim>\<open>None\<close> is a FAULT for
  stack underflow, a type mismatch or a bad operand (4.1, "Failures"). PACK puts the
  first item popped at index 0 (\<^verbatim>\<open>TestPACKGood\<close>).
\<close>

fun exec :: "VMConfig \<Rightarrow> Instr \<Rightarrow> vmst \<Rightarrow> vmst option" where
  "exec C (PUSHINT n) s = Some (s\<lparr>estack := IntV n # estack s\<rparr>)"
| "exec C (PUSHDATA bs) s = Some (s\<lparr>estack := BytesV bs # estack s\<rparr>)"
| "exec C PUSHNULL s = Some (s\<lparr>estack := NullV # estack s\<rparr>)"
| "exec C DUP s =
     (case estack s of x # rest \<Rightarrow> Some (s\<lparr>estack := x # x # rest\<rparr>) | _ \<Rightarrow> None)"
| "exec C DROP s =
     (case estack s of x # rest \<Rightarrow> Some (s\<lparr>estack := rest\<rparr>) | _ \<Rightarrow> None)"
| "exec C SWAP s =
     (case estack s of x # y # rest \<Rightarrow> Some (s\<lparr>estack := y # x # rest\<rparr>) | _ \<Rightarrow> None)"
| "exec C TOALTSTACK s =
     (case estack s of
        x # rest \<Rightarrow> Some (s\<lparr>estack := rest, astack := x # astack s\<rparr>)
      | _ \<Rightarrow> None)"
| "exec C FROMALTSTACK s =
     (case astack s of
        x # rest \<Rightarrow> Some (s\<lparr>estack := x # estack s, astack := rest\<rparr>)
      | _ \<Rightarrow> None)"
| "exec C DUPFROMALTSTACK s =
     (case astack s of
        x # rest \<Rightarrow> Some (s\<lparr>estack := x # estack s\<rparr>)
      | _ \<Rightarrow> None)"
| "exec C NEWARRAY s = execNew False s"
| "exec C NEWSTRUCT s = execNew True s"
| "exec C NEWMAP s =
     Some (s\<lparr>estack := Ref (length (heap s)) # estack s, heap := heap s @ [MapObj []]\<rparr>)"
| "exec C PACK s =
     (case estack s of
        IntV n # rest \<Rightarrow>
          if n < 0 \<or> length rest < nat n then None
          else Some (s\<lparr>estack := Ref (length (heap s)) # drop (nat n) rest,
                      heap := heap s @ [ArrayObj (take (nat n) rest)]\<rparr>)
      | _ \<Rightarrow> None)"
| "exec C APPEND s = execAppend s"
| "exec C SETITEM s = execSetItem s"
| "exec C REMOVE s = execRemove s"
| "exec C (SYSCALL f) s = execSyscall C f s"
| "exec C RET s = Some s"

text \<open>
  Modelled from the spec: 4.1, "Resource bounds (enforced on every step)": accumulated
  gas \<le> the configured limit (\<^verbatim>\<open>TestVM_SetPriceGetter\<close>: consuming exactly the limit is
  allowed) and total live item count \<le> MaxStackSize; "Exceeding any bound \<rightarrow> FAULT". The
  fault of a step carries its reason.
\<close>

datatype fault = StackTooBig | OutOfGas | BadInstruction

definition step :: "VMConfig \<Rightarrow> Instr \<Rightarrow> vmst \<Rightarrow> fault + vmst" where
  "step C i s =
     (let g = gasConsumed s + getPrice C i in
      if 0 < GasLimit C \<and> GasLimit C < g then Inl OutOfGas
      else (case exec C i (s\<lparr>gasConsumed := g\<rparr>) of
              None \<Rightarrow> Inl BadInstruction
            | Some s1 \<Rightarrow> if MaxStackSize C < itemCount s1 then Inl StackTooBig else Inr s1))"

text \<open>
  A run executes the instructions it is given one after the other, from instruction
  number \<^verbatim>\<open>k\<close> on; it ends in the state reached (HALT) or in a fault together with the
  number of the instruction that faulted.
\<close>

fun run :: "VMConfig \<Rightarrow> Instr list \<Rightarrow> nat \<Rightarrow> vmst \<Rightarrow> (nat \<times> fault) + vmst" where
  "run C [] k s = Inr s"
| "run C (i # is) k s =
     (case step C i s of Inl f \<Rightarrow> Inl (k, f) | Inr s1 \<Rightarrow> run C is (Suc k) s1)"

text \<open>
  Modelled from the spec: 4.1, a run returns "a terminal state (HALT / FAULT) with a final
  evaluation stack and a gas tally". A run that faults ends in the state that the faulting
  instruction found, charged with the price of that instruction.
\<close>

fun terminal :: "VMConfig \<Rightarrow> Instr list \<Rightarrow> vmst \<Rightarrow> vmstate \<times> vmst" where
  "terminal C [] s = (HALT, s)"
| "terminal C (i # is) s =
     (case step C i s of
        Inl f \<Rightarrow> (FAULT, s\<lparr>gasConsumed := gasConsumed s + getPrice C i\<rparr>)
      | Inr s1 \<Rightarrow> terminal C is s1)"

text \<open>
  The contents of the evaluation stack: every item written out as a value, \<^verbatim>\<open>None\<close> for
  an item that has no finite value because it contains itself.
\<close>

definition stackContents :: "vmst \<Rightarrow> StackItem option list" where
  "stackContents s = map (toTree (Suc (length (heap s))) (heap s) []) (estack s)"

definition outcome :: "VMConfig \<Rightarrow> Instr list \<Rightarrow> vmst \<Rightarrow> vmstate \<times> StackItem option list \<times> nat" where
  "outcome C p s = (case terminal C p s of (st, s1) \<Rightarrow> (st, stackContents s1, gasConsumed s1))"

text \<open>The live item count after every instruction of a run (\<^verbatim>\<open>vm.size\<close> in the tests).\<close>

fun trace :: "VMConfig \<Rightarrow> Instr list \<Rightarrow> vmst \<Rightarrow> nat list" where
  "trace C [] s = []"
| "trace C (i # is) s =
     (case step C i s of Inl f \<Rightarrow> [] | Inr s1 \<Rightarrow> itemCount s1 # trace C is s1)"

subsection \<open>The same items at other addresses\<close>

text \<open>
  Two runs are given the same evaluation stack when the stacks hold the same items, with
  the same sharing between them; at which addresses the compound items sit is not part of
  the input. \<^verbatim>\<open>f\<close> moves the object at address \<^verbatim>\<open>a\<close> to address \<^verbatim>\<open>f a\<close>: it permutes the
  addresses below \<^verbatim>\<open>n\<close>, the size of the heap at the start, and leaves all others where
  they are. A state is the relocation of another when its slots and objects are those of
  the other with every reference moved.
\<close>

fun relocSlot :: "(nat \<Rightarrow> nat) \<Rightarrow> Slot \<Rightarrow> Slot" where
  "relocSlot f (Ref a) = Ref (f a)"
| "relocSlot f (IntV i) = IntV i"
| "relocSlot f (BoolV b) = BoolV b"
| "relocSlot f (BytesV b) = BytesV b"
| "relocSlot f NullV = NullV"

definition relocEntry :: "(nat \<Rightarrow> nat) \<Rightarrow> Slot \<times> Slot \<Rightarrow> Slot \<times> Slot" where
  "relocEntry f e = (relocSlot f (fst e), relocSlot f (snd e))"

fun relocObject :: "(nat \<Rightarrow> nat) \<Rightarrow> Object \<Rightarrow> Object" where
  "relocObject f (ArrayObj xs) = ArrayObj (map (relocSlot f) xs)"
| "relocObject f (StructObj xs) = StructObj (map (relocSlot f) xs)"
| "relocObject f (MapObj kvs) = MapObj (map (relocEntry f) kvs)"
| "relocObject f (InteropObj i) = InteropObj i"
| "relocObject f (IteratorObj es pos) = IteratorObj (map (relocEntry f) es) pos"

definition relocation :: "nat \<Rightarrow> (nat \<Rightarrow> nat) \<Rightarrow> bool" where
  "relocation n f = (inj f \<and> (\<forall>a. a < n \<longrightarrow> f a < n) \<and> (\<forall>a. n \<le> a \<longrightarrow> f a = a))"

definition sameHeap :: "(nat \<Rightarrow> nat) \<Rightarrow> Object list \<Rightarrow> Object list \<Rightarrow> bool" where
  "sameHeap f h h' =
     (length h' = length h \<and> (\<forall>a. a < length h \<longrightarrow> h' ! f a = relocObject f (h ! a)))"

definition sameState :: "(nat \<Rightarrow> nat) \<Rightarrow> vmst \<Rightarrow> vmst \<Rightarrow> bool" where
  "sameState f s s' =
     (estack s' = map (relocSlot f) (estack s)
      \<and> astack s' = map (relocSlot f) (astack s)
      \<and> sameHeap f (heap s) (heap s')
      \<and> gasConsumed s' = gasConsumed s)"

subsection \<open>The programs of the tests\<close>

definition cfg :: "nat \<Rightarrow> VMConfig" where
  "cfg m = \<lparr>MaxStackSize = m, GasLimit = 0, getPrice = (\<lambda>i. 0)\<rparr>"

definition vm0 :: vmst where
  "vm0 = \<lparr>estack = [], astack = [], heap = [], gasConsumed = 0\<rparr>"

definition ints :: "nat \<Rightarrow> vmst" where
  "ints n = \<lparr>estack = replicate n (IntV 1), astack = [], heap = [], gasConsumed = 0\<rparr>"

text \<open>\<^verbatim>\<open>TestStackLimit\<close>.\<close>

definition stackLimitProg :: "Instr list" where
  "stackLimitProg =
     [PUSHINT 2, NEWARRAY, TOALTSTACK, DUPFROMALTSTACK, NEWSTRUCT, NEWMAP, DUP, PUSHINT 2,
      DUPFROMALTSTACK, SETITEM, DUP, PUSHINT 2, DUPFROMALTSTACK, SETITEM, DUP, PUSHINT 2,
      REMOVE, DROP]"

text \<open>\<^verbatim>\<open>appendBigStruct\<close> of the tests.\<close>

definition appendBigStruct :: "nat \<Rightarrow> Instr list" where
  "appendBigStruct sz =
     concat (replicate sz [PUSHINT 0, NEWSTRUCT]) @
     [PUSHINT (int sz), PACK, NEWSTRUCT, DUP, PUSHINT 0, NEWARRAY, TOALTSTACK,
      DUPFROMALTSTACK, SWAP, APPEND, RET]"

text \<open>\<^verbatim>\<open>getEnumeratorProg\<close> and the program and map of \<^verbatim>\<open>TestIteratorValues\<close>.\<close>

definition enumeratorProg :: "nat \<Rightarrow> Instr list" where
  "enumeratorProg n =
     TOALTSTACK #
     concat (replicate n [DUPFROMALTSTACK, SYSCALL EnumeratorNext,
                          DUPFROMALTSTACK, SYSCALL EnumeratorValue])
     @ [DUPFROMALTSTACK, SYSCALL EnumeratorNext]"

definition iterValuesProg :: "Instr list" where
  "iterValuesProg =
     [SYSCALL IteratorCreate, SYSCALL IteratorValues, TOALTSTACK, DUPFROMALTSTACK]
     @ enumeratorProg 2"

definition vmMap :: vmst where
  "vmMap = \<lparr>estack = [Ref 0], astack = [],
            heap = [MapObj [(IntV 1, BoolV False), (BytesV [32], BytesV [7])]],
            gasConsumed = 0\<rparr>"

text \<open>
  \<^verbatim>\<open>getSerializeProg\<close>, the array of \<^verbatim>\<open>TestSerializeArray\<close> and the array of
  \<^verbatim>\<open>TestSerializeArrayBad\<close>, whose second item is the array itself.
\<close>

definition serializeProg :: "Instr list" where
  "serializeProg = [SYSCALL RuntimeSerialize, SYSCALL RuntimeDeserialize, RET]"

definition vmArray :: vmst where
  "vmArray = \<lparr>estack = [Ref 1], astack = [],
              heap = [MapObj [], ArrayObj [BoolV True, IntV 123, Ref 0]], gasConsumed = 0\<rparr>"

definition vmCyclic :: vmst where
  "vmCyclic = \<lparr>estack = [Ref 0], astack = [], heap = [ArrayObj [BoolV False, Ref 0]],
               gasConsumed = 0\<rparr>"

definition vmInterop :: vmst where
  "vmInterop = \<lparr>estack = [Ref 0], astack = [], heap = [InteropObj 7], gasConsumed = 0\<rparr>"




section \<open>Consensus: the timestamp round trip\<close>

lemma unat_million: "unat (1000000 :: uint64) = 1000000"
  by simp

lemma unat_div_million: "unat (ts div (1000000 :: uint64)) = unat ts div 1000000"
  by (simp add: unat_div)

lemma unat_round_trip:
  "unat (ts div 1000000 * (1000000 :: uint64)) = unat ts div 1000000 * 1000000"
proof -
  have bound: "unat ts div 1000000 * 1000000 < 2 ^ 64"
  proof -
    have "unat ts div 1000000 * 1000000 \<le> unat ts" by simp
    moreover have "unat ts < 2 ^ 64" using unsigned_less [of ts] by simp
    ultimately show ?thesis by linarith
  qed
  have "unat (ts div 1000000 * (1000000 :: uint64))
        = (unat (ts div 1000000) * unat (1000000 :: uint64)) mod 2 ^ 64"
    by (simp add: unat_word_ariths)
  also have "\<dots> = (unat ts div 1000000 * 1000000) mod 2 ^ 64"
    by (simp only: unat_div_million unat_million)
  also have "\<dots> = unat ts div 1000000 * 1000000"
    using bound by simp
  finally show ?thesis .
qed

text \<open>
  C10. For every 64-bit value ts, SetTimestamp ts followed by Timestamp returns ts
  rounded down to a multiple of 1,000,000: the stored field is ts divided by 1,000,000
  and Timestamp multiplies it back without wrapping. The round trip gives ts back
  exactly when ts is divisible by 1,000,000.
\<close>

theorem Timestamp_SetTimestamp:
  "timestamp (SetTimestamp p ts) = ts div 1000000
   \<and> unat (Timestamp (SetTimestamp p ts)) = unat ts div 1000000 * 1000000
   \<and> unat (Timestamp (SetTimestamp p ts)) = unat ts - unat ts mod 1000000
   \<and> (Timestamp (SetTimestamp p ts) = ts) = (unat ts mod 1000000 = 0)"
proof -
  have f: "timestamp (SetTimestamp p ts) = ts div 1000000"
    by (simp add: SetTimestamp_def)
  have u: "unat (Timestamp (SetTimestamp p ts)) = unat ts div 1000000 * 1000000"
    by (simp only: Timestamp_def f unat_round_trip)
  have d: "unat ts div 1000000 * 1000000 = unat ts - unat ts mod 1000000"
    by (simp add: minus_mod_eq_div_mult)
  have "(Timestamp (SetTimestamp p ts) = ts)
        = (unat (Timestamp (SetTimestamp p ts)) = unat ts)"
    by (simp add: word_unat_eq_iff)
  also have "\<dots> = (unat ts div 1000000 * 1000000 = unat ts)"
    by (simp only: u)
  also have "\<dots> = (unat ts mod 1000000 = 0)"
    by (metis mod_0_imp_dvd dvd_div_mult_self dvd_triv_right mod_eq_0_iff_dvd)
  finally show ?thesis using f u d by simp
qed

section \<open>Transactions: inputs, claims and invocations\<close>

lemmas ex_defs = mem_env_def coin_fresh_def coin_spent_def cache_fresh_def cache_spent_def
  neo_out_def owner_empty_def owner_unclaimed_def in7_def in_unknown_def blk9_def tx42_def
  strict_off_def strict_on_def halt_run_def fault_run_def

text \<open>
  C4. For every transaction input, \<^verbatim>\<open>processTXInput\<close> succeeds only if the previous index
  lies within the vector of coin states and the spent bit of that state is not set. On
  success the spent bit is set and the spend height is the index of the block being
  applied. An index out of range gives the "bad input" error and a spent coin the "double
  spend" error, and in both cases neither the coin states nor the cache are touched.
\<close>

theorem processTXInput_marks_coin:
  assumes "processTXInput E input unspent block cache = (err, unspent', cache')"
  shows
   "(length (States unspent) \<le> unat (PrevIndex input) \<longrightarrow>
      err = Some (BadInput (PrevHash input) (PrevIndex input))
      \<and> unspent' = unspent \<and> cache' = cache)
   \<and> (unat (PrevIndex input) < length (States unspent)
        \<and> State (States unspent ! unat (PrevIndex input)) AND CoinSpent E \<noteq> 0 \<longrightarrow>
      err = Some (DoubleSpend (PrevHash input) (PrevIndex input))
      \<and> unspent' = unspent \<and> cache' = cache)
   \<and> (err = None \<longrightarrow>
        unat (PrevIndex input) < length (States unspent)
        \<and> State (States unspent ! unat (PrevIndex input)) AND CoinSpent E = 0
        \<and> length (States unspent') = length (States unspent)
        \<and> State (States unspent' ! unat (PrevIndex input)) AND CoinSpent E = CoinSpent E
        \<and> SpendHeight (States unspent' ! unat (PrevIndex input)) = Index block)"
  using assms
  apply (simp add: processTXInput_def Let_def
              split: if_splits sum.splits prod.splits option.splits)
  apply (auto simp: word_bw_assocs word_ao_absorbs)
  done

text \<open>
  The theorem at work: spending the fresh coin of transaction 7 in block 9 succeeds and
  marks it; spending it again is a double spend and index 1 is a bad input, both leaving
  the coin state as it was.
\<close>

theorem processTXInput_marks_coin_witness:
  "fst (processTXInput (mem_env halt_run) in7 coin_fresh blk9 cache_fresh) = None
   \<and> State (States (fst (snd (processTXInput (mem_env halt_run) in7 coin_fresh blk9 cache_fresh))) ! 0) = 2
   \<and> SpendHeight (States (fst (snd (processTXInput (mem_env halt_run) in7 coin_fresh blk9 cache_fresh))) ! 0) = 9
   \<and> fst (processTXInput (mem_env halt_run) in7 coin_spent blk9 cache_spent)
       = Some (DoubleSpend [7] 0)
   \<and> fst (snd (processTXInput (mem_env halt_run) in7 coin_spent blk9 cache_spent)) = coin_spent
   \<and> fst (processTXInput (mem_env halt_run) (in7\<lparr>PrevIndex := 1\<rparr>) coin_fresh blk9 cache_fresh)
       = Some (BadInput [7] 1)"
  using processTXInput_marks_coin [of "mem_env halt_run" in7 coin_fresh blk9 cache_fresh
      "fst (processTXInput (mem_env halt_run) in7 coin_fresh blk9 cache_fresh)"
      "fst (snd (processTXInput (mem_env halt_run) in7 coin_fresh blk9 cache_fresh))"
      "snd (snd (processTXInput (mem_env halt_run) in7 coin_fresh blk9 cache_fresh))"]
    processTXInput_marks_coin [of "mem_env halt_run" in7 coin_spent blk9 cache_spent
      "fst (processTXInput (mem_env halt_run) in7 coin_spent blk9 cache_spent)"
      "fst (snd (processTXInput (mem_env halt_run) in7 coin_spent blk9 cache_spent))"
      "snd (snd (processTXInput (mem_env halt_run) in7 coin_spent blk9 cache_spent))"]
  by (simp add: processTXInput_def ex_defs governingTokenSpent_def removeBalance_def Let_def)

text \<open>
  C5, as stated, fails: with a free gas limit of 0 and 5 gas attached, \<^verbatim>\<open>SetGasLimit\<close> is
  not called at all. The VM keeps the limit it was spawned with (0 here) instead of
  0 + 5, and the faulting run, which reports its limit as the gas consumed, stores 0.
\<close>

theorem gas_limit_counterexample:
  "gasLimit (setupVM (mem_env fault_run) strict_off \<lparr>Script = [81], Gas = 5\<rparr> tx42 blk9 cache_fresh)
     \<noteq> FreeGasLimit strict_off + Gas \<lparr>Script = [81], Gas = 5\<rparr>
   \<and> aer_GasConsumed (hd (mc_results (fst (snd
        (processInvocationTX (mem_env fault_run) strict_off \<lparr>Script = [81], Gas = 5\<rparr>
           tx42 blk9 cache_fresh []))))) = 0"
  by (simp add: setupVM_def processInvocationTX_def afterRun_def HasFailed_def ex_defs Let_def
        word_sless_alt)

text \<open>
  C5, amended. \<^verbatim>\<open>processInvocationTX\<close> runs the transaction's script on the VM it has set
  up. When the configured free gas limit is positive (as a signed 64-bit value), the gas
  limit of that VM is the free gas limit plus the gas attached to the transaction (a
  64-bit sum); otherwise no gas limit is set and the VM keeps the one it was created
  with.
\<close>

theorem processInvocationTX_gas_limit:
  "processInvocationTX E config t tx block cache lg
     = afterRun E tx block cache lg (Run E (setupVM E config t tx block cache) cache block tx)
   \<and> script (setupVM E config t tx block cache) = Script t
   \<and> (0 <s FreeGasLimit config \<longrightarrow>
         gasLimit (setupVM E config t tx block cache) = FreeGasLimit config + Gas t)
   \<and> (\<not> 0 <s FreeGasLimit config \<longrightarrow>
         gasLimit (setupVM E config t tx block cache)
           = gasLimit (spawnVMWithInterops E cache block tx))"
proof -
  have run: "processInvocationTX E config t tx block cache lg
     = afterRun E tx block cache lg (Run E (setupVM E config t tx block cache) cache block tx)"
    by (simp add: processInvocationTX_def)
  have scr: "script (setupVM E config t tx block cache) = Script t"
    by (simp add: setupVM_def Let_def)
  have pos: "0 <s FreeGasLimit config \<longrightarrow>
         gasLimit (setupVM E config t tx block cache) = FreeGasLimit config + Gas t"
    by (simp add: setupVM_def Let_def)
  have nonpos: "\<not> 0 <s FreeGasLimit config \<longrightarrow>
         gasLimit (setupVM E config t tx block cache)
           = gasLimit (spawnVMWithInterops E cache block tx)"
    by (simp add: setupVM_def Let_def)
  from run scr pos nonpos show ?thesis by blast
qed

theorem processInvocationTX_gas_limit_witness:
  "0 <s FreeGasLimit strict_on
   \<and> gasLimit (setupVM (mem_env fault_run) strict_on \<lparr>Script = [81], Gas = 5\<rparr> tx42 blk9 cache_fresh) = 15
   \<and> \<not> 0 <s FreeGasLimit strict_off
   \<and> gasLimit (setupVM (mem_env fault_run) strict_off \<lparr>Script = [81], Gas = 5\<rparr> tx42 blk9 cache_fresh) = 0"
  using processInvocationTX_gas_limit [of "mem_env fault_run" strict_on
          "\<lparr>Script = [81], Gas = 5\<rparr>" tx42 blk9 cache_fresh "[]"]
        processInvocationTX_gas_limit [of "mem_env fault_run" strict_off
          "\<lparr>Script = [81], Gas = 5\<rparr>" tx42 blk9 cache_fresh "[]"]
  by (simp add: ex_defs word_sless_alt)

text \<open>
  C1. When the VM run of an invocation transaction ends in FAULT, \<^verbatim>\<open>processInvocationTX\<close>
  never calls \<^verbatim>\<open>Persist\<close>: the cache it leaves is the incoming cache with the
  \<^verbatim>\<open>AppExecResult\<close> stored, whatever the run had staged. The stored result carries the
  FAULT state and the gas consumed. The error returned is the error of that store, so
  the function returns nil whenever the store succeeds: the fault itself is no error.
\<close>

theorem processInvocationTX_fault:
  assumes r: "r = Run E (setupVM E config t tx block cache) cache block tx"
      and f: "run_state r = FAULT"
      and aer: "aer = \<lparr>aer_TxHash = Hash tx, aer_Trigger = Application, aer_VMState = FAULT,
                 aer_GasConsumed = run_gasConsumed r,
                 aer_Stack = ToContractParameters E (run_estack r),
                 aer_Events = run_notifications r\<rparr>"
  shows "processInvocationTX E config t tx block cache lg
           = (Wrap (fst (PutAppExecResult E cache aer)) ''failed to store notifications'',
              snd (PutAppExecResult E cache aer),
              lg @ [ContractInvocationFailed (Hash tx) (Index block) (run_err r)])
         \<and> (fst (PutAppExecResult E cache aer) = None \<longrightarrow>
              fst (processInvocationTX E config t tx block cache lg) = None)
         \<and> afterRun E tx block cache lg (r\<lparr>run_dao := d\<rparr>) = afterRun E tx block cache lg r"
  using assms
  by (simp add: processInvocationTX_def afterRun_def HasFailed_def Let_def Wrap_def
           split: prod.splits)

text \<open>
  The theorem at work: the faulting run had staged a write to account 10; the accounts of
  the cache are unchanged, the result list holds one entry with state FAULT and 15 gas,
  and no error is returned.
\<close>

theorem processInvocationTX_fault_witness:
  "run_state (fault_run (setupVM (mem_env fault_run) strict_on \<lparr>Script = [81], Gas = 5\<rparr>
                 tx42 blk9 cache_spent) cache_spent blk9 tx42) = FAULT
   \<and> fst (processInvocationTX (mem_env fault_run) strict_on \<lparr>Script = [81], Gas = 5\<rparr>
            tx42 blk9 cache_spent []) = None
   \<and> mc_accounts (fst (snd (processInvocationTX (mem_env fault_run) strict_on
            \<lparr>Script = [81], Gas = 5\<rparr> tx42 blk9 cache_spent [])))
       = mc_accounts cache_spent
   \<and> map aer_VMState (mc_results (fst (snd (processInvocationTX (mem_env fault_run) strict_on
            \<lparr>Script = [81], Gas = 5\<rparr> tx42 blk9 cache_spent [])))) = [FAULT]
   \<and> map aer_GasConsumed (mc_results (fst (snd (processInvocationTX (mem_env fault_run) strict_on
            \<lparr>Script = [81], Gas = 5\<rparr> tx42 blk9 cache_spent [])))) = [15]"
  using processInvocationTX_fault [of
      "fault_run (setupVM (mem_env fault_run) strict_on \<lparr>Script = [81], Gas = 5\<rparr> tx42 blk9 cache_spent)
         cache_spent blk9 tx42"
      "mem_env fault_run" strict_on "\<lparr>Script = [81], Gas = 5\<rparr>" tx42 blk9 cache_spent
      "\<lparr>aer_TxHash = [42], aer_Trigger = Application, aer_VMState = FAULT,
        aer_GasConsumed = 15, aer_Stack = [], aer_Events = []\<rparr>"
      "[]" "[]"]
  by (simp add: ex_defs setupVM_def word_sless_alt Wrap_def Application_def)

text \<open>
  C2, as stated, fails: with strict verification off, the unknown reference in front of a
  good one is logged and the loop is left. The good reference behind it is not processed:
  the coin states of the cache are untouched, whereas processing the good reference
  alone would have marked its coin.
\<close>

theorem claim_break_counterexample:
  "checkClaim (mem_env halt_run) cache_spent in_unknown = Inl (DaoError ''key not found'')
   \<and> mc_unspents (fst (snd (processClaimTX (mem_env halt_run) strict_off [in_unknown, in7]
                               tx42 blk9 cache_spent [])))
       = mc_unspents cache_spent
   \<and> mc_unspents (fst (snd (processClaimTX (mem_env halt_run) strict_off [in7] tx42 blk9
                               cache_spent [FalseOrDoubleClaim [8] 0 [42] 9])))
       \<noteq> mc_unspents cache_spent
   \<and> processClaimTX (mem_env halt_run) strict_off [in_unknown, in7] tx42 blk9 cache_spent []
       \<noteq> processClaimTX (mem_env halt_run) strict_off [in7] tx42 blk9 cache_spent
            [FalseOrDoubleClaim [8] 0 [42] 9]"
proof -
  have a: "checkClaim (mem_env halt_run) cache_spent in_unknown
             = Inl (DaoError ''key not found'')"
    by (simp add: checkClaim_def ex_defs)
  have b: "mc_unspents (fst (snd (processClaimTX (mem_env halt_run) strict_off
             [in_unknown, in7] tx42 blk9 cache_spent []))) = mc_unspents cache_spent"
    by (simp add: a) (simp add: ex_defs)
  have c: "mc_unspents (fst (snd (processClaimTX (mem_env halt_run) strict_off [in7] tx42 blk9
             cache_spent [FalseOrDoubleClaim [8] 0 [42] 9]))) \<noteq> mc_unspents cache_spent"
    by (simp add: checkClaim_def ex_defs)
  from b c have "mc_unspents (fst (snd (processClaimTX (mem_env halt_run) strict_off
                    [in_unknown, in7] tx42 blk9 cache_spent [])))
     \<noteq> mc_unspents (fst (snd (processClaimTX (mem_env halt_run) strict_off [in7] tx42 blk9
                    cache_spent [FalseOrDoubleClaim [8] 0 [42] 9])))"
    by simp
  then have d: "processClaimTX (mem_env halt_run) strict_off [in_unknown, in7] tx42 blk9
                  cache_spent []
       \<noteq> processClaimTX (mem_env halt_run) strict_off [in7] tx42 blk9 cache_spent
            [FalseOrDoubleClaim [8] 0 [42] 9]"
    by metis
  from a b c d show ?thesis by blast
qed

text \<open>
  C2, amended. A claim reference is bad when the coin state of its previous hash cannot be
  read, when its index is out of range, or when the claimed bit is already set. A bad
  reference is logged. With strict verification on, \<^verbatim>\<open>processClaimTX\<close> returns its
  error; with strict verification off it returns nil at once: the cache is left as the
  references before it made it, and the references after it are not looked at.
\<close>

theorem processClaimTX_bad_claim:
  assumes "checkClaim E cache input = Inl err"
  shows "(VerifyTransactions config \<longrightarrow>
            processClaimTX E config (input # claims) tx block cache lg
              = (Some err, cache,
                 lg @ [FalseOrDoubleClaim (PrevHash input) (PrevIndex input) (Hash tx)
                         (Index block)]))
       \<and> (\<not> VerifyTransactions config \<longrightarrow>
            processClaimTX E config (input # claims) tx block cache lg
              = (None, cache,
                 lg @ [FalseOrDoubleClaim (PrevHash input) (PrevIndex input) (Hash tx)
                         (Index block)]))
       \<and> (case GetUnspentCoinState E cache (PrevHash input) of
             Inl e \<Rightarrow> err = e
           | Inr scs \<Rightarrow>
               (length (States scs) \<le> unat (PrevIndex input) \<and> err = InvalidClaimIndex)
               \<or> (unat (PrevIndex input) < length (States scs)
                   \<and> State (States scs ! unat (PrevIndex input)) AND CoinClaimed E \<noteq> 0
                   \<and> err = DoubleClaim))"
  using assms
  by (auto simp: checkClaim_def Let_def split: sum.splits if_splits)

theorem processClaimTX_bad_claim_witness:
  "processClaimTX (mem_env halt_run) strict_off [in_unknown, in7] tx42 blk9 cache_spent []
      = (None, cache_spent, [FalseOrDoubleClaim [8] 0 [42] 9])
   \<and> processClaimTX (mem_env halt_run) strict_on [in_unknown, in7] tx42 blk9 cache_spent []
      = (Some (DaoError ''key not found''), cache_spent, [FalseOrDoubleClaim [8] 0 [42] 9])"
proof -
  have a: "checkClaim (mem_env halt_run) cache_spent in_unknown
             = Inl (DaoError ''key not found'')"
    by (simp add: checkClaim_def ex_defs)
  show ?thesis
    using processClaimTX_bad_claim [OF a, of strict_off "[in7]" tx42 blk9 "[]"]
          processClaimTX_bad_claim [OF a, of strict_on "[in7]" tx42 blk9 "[]"]
    by (simp add: strict_off_def strict_on_def in_unknown_def tx42_def blk9_def)
qed

text \<open>
  C3, as stated, fails: the coin of transaction 7 has never been spent (its spent bit is
  clear), yet a claim of it is accepted, even in strict mode, and its claimed bit is set.
\<close>

theorem unspent_claim_counterexample:
  "State (States coin_fresh ! unat (PrevIndex in7)) AND CoinSpent (mem_env halt_run) = 0
   \<and> checkClaim (mem_env halt_run) cache_fresh in7 = Inr coin_fresh
   \<and> fst (processClaimTX (mem_env halt_run) strict_on [in7] tx42 blk9 cache_fresh []) = None
   \<and> map_of (mc_unspents (fst (snd (processClaimTX (mem_env halt_run) strict_on [in7] tx42 blk9
                                       cache_fresh [])))) [7]
       = Some (coin_fresh\<lparr>States := [\<lparr>Output = neo_out, SpendHeight = 0, State = 4\<rparr>]\<rparr>)"
  by (simp add: checkClaim_def ex_defs)

text \<open>
  C3, amended. A claim reference that \<^verbatim>\<open>processClaimTX\<close> accepts has been checked to name
  an existing coin state (the index is in range) whose claimed bit is clear; whether the
  coin is spent is not checked. On acceptance the coin state is stored with the claimed
  bit set and every other state unchanged, and the entry of the reference is removed from
  the unclaimed balances of the account owning the output: when an entry was removed the
  account is stored, when none was found a warning is logged and the loop goes on.
\<close>

theorem processClaimTX_accepts:
  assumes chk: "checkClaim E cache input = Inr scs"
      and acc: "GetAccountState E cache
                  (ScriptHash (Output (States scs ! unat (PrevIndex input)))) = Inr acc"
      and scs1: "scs1 = scs\<lparr>States := (States scs)[unat (PrevIndex input) :=
                   (States scs ! unat (PrevIndex input))
                     \<lparr>State := State (States scs ! unat (PrevIndex input)) OR CoinClaimed E\<rparr>]\<rparr>"
      and put: "PutUnspentCoinState E cache (PrevHash input) scs1 = (None, cache1)"
      and rem: "UnclaimedRemove E (Unclaimed acc) (PrevHash input) (PrevIndex input)
                  = (changed, u)"
  shows "GetUnspentCoinState E cache (PrevHash input) = Inr scs
       \<and> unat (PrevIndex input) < length (States scs)
       \<and> State (States scs ! unat (PrevIndex input)) AND CoinClaimed E = 0
       \<and> State (States scs1 ! unat (PrevIndex input)) AND CoinClaimed E = CoinClaimed E
       \<and> (\<forall>j. j \<noteq> unat (PrevIndex input) \<longrightarrow> States scs1 ! j = States scs ! j)
       \<and> (changed \<longrightarrow>
            processClaimTX E config (input # claims) tx block cache lg
              = (case PutAccountState E cache1 (acc\<lparr>Unclaimed := u\<rparr>) of
                   (Some err, cache2) \<Rightarrow> (Some err, cache2, lg)
                 | (None, cache2) \<Rightarrow> processClaimTX E config claims tx block cache2 lg))
       \<and> (\<not> changed \<longrightarrow>
            processClaimTX E config (input # claims) tx block cache lg
              = processClaimTX E config claims tx block cache1
                  (lg @ [NoSpentCoinInAccount (Hash tx) (PrevHash input) (acc_ScriptHash acc)]))"
proof -
  from chk have g: "GetUnspentCoinState E cache (PrevHash input) = Inr scs"
    and i: "unat (PrevIndex input) < length (States scs)"
    and z: "State (States scs ! unat (PrevIndex input)) AND CoinClaimed E = 0"
    by (auto simp: checkClaim_def split: sum.splits if_splits)
  from i scs1
  have s: "State (States scs1 ! unat (PrevIndex input)) AND CoinClaimed E = CoinClaimed E"
    by (simp add: word_ao_absorbs)
  from scs1 have o: "\<forall>j. j \<noteq> unat (PrevIndex input) \<longrightarrow> States scs1 ! j = States scs ! j"
    by simp
  from chk acc put rem scs1 have c: "changed \<longrightarrow>
            processClaimTX E config (input # claims) tx block cache lg
              = (case PutAccountState E cache1 (acc\<lparr>Unclaimed := u\<rparr>) of
                   (Some err, cache2) \<Rightarrow> (Some err, cache2, lg)
                 | (None, cache2) \<Rightarrow> processClaimTX E config claims tx block cache2 lg)"
    by (simp add: Let_def)
  from chk acc put rem scs1 have n: "\<not> changed \<longrightarrow>
            processClaimTX E config (input # claims) tx block cache lg
              = processClaimTX E config claims tx block cache1
                  (lg @ [NoSpentCoinInAccount (Hash tx) (PrevHash input) (acc_ScriptHash acc)])"
    by (simp add: Let_def)
  from g i z s o c n show ?thesis by blast
qed

text \<open>
  The theorem at work: the spent coin of transaction 7 is claimed; the cache then holds
  the coin state with both bits set and the owner's account without its unclaimed entry.
\<close>

theorem processClaimTX_accepts_witness:
  "checkClaim (mem_env halt_run) cache_spent in7 = Inr coin_spent
   \<and> processClaimTX (mem_env halt_run) strict_on [in7] tx42 blk9 cache_spent []
      = (None,
         \<lparr>mc_unspents =
            [([7], coin_spent\<lparr>States := [\<lparr>Output = neo_out, SpendHeight = 5, State = 6\<rparr>]\<rparr>),
             ([7], coin_spent)],
          mc_accounts = [([10], owner_unclaimed\<lparr>Unclaimed := []\<rparr>), ([10], owner_unclaimed)],
          mc_results = []\<rparr>, [])"
proof -
  have chk: "checkClaim (mem_env halt_run) cache_spent in7 = Inr coin_spent"
    by (simp add: checkClaim_def ex_defs)
  have acc: "GetAccountState (mem_env halt_run) cache_spent
               (ScriptHash (Output (States coin_spent ! unat (PrevIndex in7))))
             = Inr owner_unclaimed"
    by (simp add: ex_defs)
  have put: "PutUnspentCoinState (mem_env halt_run) cache_spent (PrevHash in7)
               (coin_spent\<lparr>States := [\<lparr>Output = neo_out, SpendHeight = 5, State = 6\<rparr>]\<rparr>)
             = (None, cache_spent\<lparr>mc_unspents :=
                  ([7], coin_spent\<lparr>States := [\<lparr>Output = neo_out, SpendHeight = 5, State = 6\<rparr>]\<rparr>)
                    # mc_unspents cache_spent\<rparr>)"
    by (simp add: mem_env_def in7_def)
  have rem: "UnclaimedRemove (mem_env halt_run) (Unclaimed owner_unclaimed) (PrevHash in7)
               (PrevIndex in7) = (True, [])"
    by (simp add: ex_defs)
  have scs1: "coin_spent\<lparr>States := [\<lparr>Output = neo_out, SpendHeight = 5, State = 6\<rparr>]\<rparr>
         = coin_spent\<lparr>States := (States coin_spent)[unat (PrevIndex in7) :=
                   (States coin_spent ! unat (PrevIndex in7))
                     \<lparr>State := State (States coin_spent ! unat (PrevIndex in7))
                                 OR CoinClaimed (mem_env halt_run)\<rparr>]\<rparr>"
    by (simp add: ex_defs)
  show ?thesis
    using processClaimTX_accepts [OF chk acc scs1 put rem, of strict_on "[]" tx42 blk9 "[]"] chk
    by (simp add: mem_env_def cache_spent_def owner_unclaimed_def)
qed

section \<open>The VM: the integer cap\<close>

lemma BitLen_le_iff: "BitLen n \<le> k \<longleftrightarrow> n < 2 ^ k"
proof (induction n arbitrary: k rule: BitLen.induct)
  case (1 n)
  show ?case
  proof (cases "n = 0")
    case True
    then show ?thesis by (simp add: BitLen.simps)
  next
    case False
    show ?thesis
    proof (cases k)
      case 0
      with False show ?thesis by (simp add: BitLen.simps)
    next
      case (Suc j)
      have "BitLen n \<le> Suc j \<longleftrightarrow> BitLen (n div 2) \<le> j"
        using False by (subst BitLen.simps) simp
      also have "\<dots> \<longleftrightarrow> n div 2 < 2 ^ j"
        using 1 [OF False] .
      also have "\<dots> \<longleftrightarrow> n < 2 ^ Suc j"
        by auto
      finally show ?thesis using Suc by simp
    qed
  qed
qed

lemma checkBigIntSize_iff: "checkBigIntSize a \<longleftrightarrow> \<bar>a\<bar> < 2 ^ MaxBigIntegerSizeBits"
proof -
  have "nat \<bar>a\<bar> < 2 ^ MaxBigIntegerSizeBits \<longleftrightarrow> \<bar>a\<bar> < 2 ^ MaxBigIntegerSizeBits"
    by (metis abs_ge_zero nat_less_numeral_power_cancel_iff nat_0_le of_nat_less_numeral_power_cancel_iff)
  then show ?thesis by (simp add: checkBigIntSize_def BitLen_le_iff)
qed

lemma arith_None_iff:
  "arith f a b = None \<longleftrightarrow>
     \<not> \<bar>a\<bar> < 2 ^ MaxBigIntegerSizeBits \<or> \<not> \<bar>b\<bar> < 2 ^ MaxBigIntegerSizeBits
     \<or> \<not> \<bar>f a b\<bar> < 2 ^ MaxBigIntegerSizeBits"
  by (simp add: arith_def Let_def checkBigIntSize_iff)

lemma arith_Some:
  "\<bar>a\<bar> < 2 ^ MaxBigIntegerSizeBits \<Longrightarrow> \<bar>b\<bar> < 2 ^ MaxBigIntegerSizeBits
     \<Longrightarrow> \<bar>f a b\<bar> < 2 ^ MaxBigIntegerSizeBits \<Longrightarrow> arith f a b = Some (f a b)"
  by (simp add: arith_def Let_def checkBigIntSize_iff)

lemma abs_div_le: "0 < (d::int) \<Longrightarrow> \<bar>a div d\<bar> \<le> \<bar>a\<bar>"
proof (cases "0 \<le> a")
  case True
  assume d: "0 < d"
  then have "1 \<le> d" by simp
  from zdiv_mono2 [OF True _ this] have "a div d \<le> a" by simp
  moreover have "0 \<le> a div d" using True d by (simp add: pos_imp_zdiv_nonneg_iff)
  ultimately show ?thesis using True by simp
next
  case False
  assume d: "0 < d"
  then have d1: "1 \<le> d" by simp
  from False have neg: "a < 0" by simp
  from zdiv_mono2_neg [OF neg _ d1] have "a \<le> a div d" by simp
  moreover have "a div d < 0" using neg d by (simp add: pos_imp_zdiv_neg_iff)
  ultimately show ?thesis using neg by simp
qed

lemma shl_right_small: "n < 0 \<Longrightarrow> \<bar>shl a n\<bar> \<le> \<bar>a\<bar>"
  by (simp add: shl_def abs_div_le)

lemma shl_left_big:
  assumes "a \<noteq> 0" "int k \<le> n"
  shows "2 ^ k \<le> \<bar>shl a n\<bar>"
proof -
  from assms(2) have n: "0 \<le> n" "k \<le> nat n" by simp_all
  have "(2::int) ^ k \<le> 2 ^ nat n" using n(2) by (simp add: power_increasing)
  moreover have "1 \<le> \<bar>a\<bar>" using assms(1) by simp
  ultimately have "1 * (2::int) ^ k \<le> \<bar>a\<bar> * 2 ^ nat n"
    by (intro mult_mono) simp_all
  then show ?thesis using n(1) by (simp add: shl_def abs_mult)
qed

lemma SHL_count_limit: "a \<noteq> 0 \<Longrightarrow> int MaxBigIntegerSizeBits \<le> b \<Longrightarrow> SHL a b = None"
  using shl_left_big [of a MaxBigIntegerSizeBits b]
  by (simp add: SHL_def arith_None_iff)

lemma SHL_count_below_zero:
  "b < 0 \<Longrightarrow> (SHL a b = None) = (\<not> \<bar>a\<bar> < 2 ^ MaxBigIntegerSizeBits \<or> \<not> \<bar>b\<bar> < 2 ^ MaxBigIntegerSizeBits)"
  using shl_right_small [of b a]
  by (auto simp: SHL_def arith_None_iff)

text \<open>
  The tests of SHL: \<^verbatim>\<open>TestSHLGood\<close>, \<^verbatim>\<open>TestSHLZero\<close> (the bytes \<^verbatim>\<open>0, 1\<close> are 256),
  \<^verbatim>\<open>TestArithNegativeArguments\<close>, \<^verbatim>\<open>TestSHLBigValue\<close> for every value of \<^verbatim>\<open>maxSHLArg\<close>
  from MaxBigIntegerSizeBits - 3 on, and \<^verbatim>\<open>TestSHLBigResult\<close>.
\<close>

lemma TestSHLGood: "SHL 4 2 = Some 16"
  by (simp add: SHL_def shl_def arith_Some MaxBigIntegerSizeBits_def)

lemma TestSHLZero: "SHL 256 0 = Some 256"
  by (simp add: SHL_def shl_def arith_Some MaxBigIntegerSizeBits_def)

lemma TestSHLNegativeOperand: "SHL (- 5) 2 = Some (- 20)"
  by (simp add: SHL_def shl_def arith_Some MaxBigIntegerSizeBits_def)

lemma TestSHLBigValue:
  "int MaxBigIntegerSizeBits - 3 \<le> maxSHLArg \<Longrightarrow> SHL 5 (maxSHLArg + 1) = None"
proof -
  assume m: "int MaxBigIntegerSizeBits - 3 \<le> maxSHLArg"
  then have n: "0 \<le> maxSHLArg + 1" "MaxBigIntegerSizeBits - 2 \<le> nat (maxSHLArg + 1)"
    by (simp_all add: MaxBigIntegerSizeBits_def)
  have "(2::int) ^ (MaxBigIntegerSizeBits - 2) \<le> 2 ^ nat (maxSHLArg + 1)"
    using n(2) by (simp add: power_increasing)
  then have "4 * (2::int) ^ (MaxBigIntegerSizeBits - 2) \<le> 5 * 2 ^ nat (maxSHLArg + 1)"
    by (intro mult_mono) simp_all
  moreover have "4 * (2::int) ^ (MaxBigIntegerSizeBits - 2) = 2 ^ MaxBigIntegerSizeBits"
    by (simp add: MaxBigIntegerSizeBits_def)
  ultimately have "2 ^ MaxBigIntegerSizeBits \<le> \<bar>shl 5 (maxSHLArg + 1)\<bar>"
    using n(1) by (simp add: shl_def)
  then show ?thesis by (simp add: SHL_def arith_None_iff)
qed

lemma TestSHLBigResult:
  "SHL (2 ^ (MaxBigIntegerSizeBits div 2)) (int (MaxBigIntegerSizeBits div 2)) = None"
  by (simp add: SHL_def shl_def arith_None_iff MaxBigIntegerSizeBits_def)




section \<open>The VM: byte encodings and snapshots\<close>

lemma twos_ne: "twos n \<noteq> []"
  by (subst twos.simps) simp

lemma BytesToInt_le_twos: "BytesToInt_le (twos n) = n"
proof (induction n rule: twos.induct)
  case (1 n)
  show ?case
  proof (cases "- 128 \<le> n \<and> n < 128")
    case True
    then have "sint (word_of_int n :: 8 word) = n"
      by (simp add: signed_of_int signed_take_bit_int_eq_self)
    with True show ?thesis by (simp add: twos.simps [of n])
  next
    case False
    have u: "uint (word_of_int n :: 8 word) = n mod 256"
      by (simp add: uint_word_of_int)
    obtain c cs where cs: "twos (n div 256) = c # cs"
      using twos_ne [of "n div 256"] by (cases "twos (n div 256)") auto
    have "BytesToInt_le (twos n) = BytesToInt_le (word_of_int n # twos (n div 256))"
      using False by (auto simp: twos.simps [of n])
    also have "\<dots> = uint (word_of_int n :: 8 word) + 256 * BytesToInt_le (twos (n div 256))"
      by (simp add: cs)
    also have "\<dots> = n mod 256 + 256 * (n div 256)"
      using 1 [OF False] u by simp
    also have "\<dots> = n" by simp
    finally show ?thesis .
  qed
qed

lemma BytesToInt_le_IntToBytes: "BytesToInt_le (IntToBytes n) = n"
  by (simp add: IntToBytes_def BytesToInt_le_twos)

lemma length_le_bytes [simp]: "length (le_bytes k n) = k"
  by (induction k arbitrary: n) auto

lemma le_nat_le_bytes: "n < 256 ^ k \<Longrightarrow> le_nat (le_bytes k n) = n"
proof (induction k arbitrary: n)
  case 0
  then show ?case by simp
next
  case (Suc k)
  have "n div 256 < 256 ^ k" using Suc.prems by (simp add: less_mult_imp_div_less mult.commute)
  then have "le_nat (le_bytes k (n div 256)) = n div 256" by (rule Suc.IH)
  moreover have "unat (of_nat (n mod 256) :: 8 word) = n mod 256"
    by (simp add: unat_of_nat)
  ultimately show ?case by simp
qed

lemma ReadVarUint_WriteVarUint:
  "n < 2 ^ 64 \<Longrightarrow> ReadVarUint (WriteVarUint n @ rest) = Some (n, rest)"
proof -
  assume n: "n < 2 ^ 64"
  consider "n < 253" | "253 \<le> n" "n < 65536" | "65536 \<le> n" "n < 4294967296" | "4294967296 \<le> n"
    by linarith
  then show ?thesis
  proof cases
    case 1
    then have "unat (of_nat n :: 8 word) = n" by (simp add: unat_of_nat)
    moreover have "(of_nat n :: 8 word) \<noteq> 253 \<and> (of_nat n :: 8 word) \<noteq> 254
                   \<and> (of_nat n :: 8 word) \<noteq> 255"
    proof -
      have "unat (of_nat n :: 8 word) \<noteq> unat (253 :: 8 word)"
           "unat (of_nat n :: 8 word) \<noteq> unat (254 :: 8 word)"
           "unat (of_nat n :: 8 word) \<noteq> unat (255 :: 8 word)"
        using 1 calculation by simp_all
      then show ?thesis by metis
    qed
    ultimately show ?thesis using 1 by (simp add: WriteVarUint_def ReadVarUint_def)
  next
    case 2
    then have "le_nat (le_bytes 2 n) = n" by (intro le_nat_le_bytes) simp
    with 2 show ?thesis by (simp add: WriteVarUint_def ReadVarUint_def readLE_def)
  next
    case 3
    then have "le_nat (le_bytes 4 n) = n" by (intro le_nat_le_bytes) simp
    with 3 show ?thesis by (simp add: WriteVarUint_def ReadVarUint_def readLE_def)
  next
    case 4
    from n have "le_nat (le_bytes 8 n) = n" by (intro le_nat_le_bytes) simp
    with 4 show ?thesis by (simp add: WriteVarUint_def ReadVarUint_def readLE_def)
  qed
qed

lemma ReadVarBytes_WriteVarBytes:
  "length bs < 2 ^ 64 \<Longrightarrow> ReadVarBytes (WriteVarBytes bs @ rest) = Some (bs, rest)"
  by (simp add: ReadVarBytes_def WriteVarBytes_def ReadVarUint_WriteVarUint)

lemma readItems_roundtrip:
  assumes "\<And>x bs n rest. x \<in> set xs \<Longrightarrow> serializeItem x = Some bs \<Longrightarrow> length bs < n
              \<Longrightarrow> readItem n (bs @ rest) = Some (x, rest)"
      and "those (map serializeItem xs) = Some bss"
      and "length (concat bss) < m"
  shows "readItems m (length xs) (concat bss @ rest) = Some (xs, rest)"
  using assms
proof (induction xs arbitrary: bss rest)
  case Nil
  then show ?case by simp
next
  case (Cons x xs)
  from Cons.prems(2) obtain b bs' where b: "serializeItem x = Some b"
    and bs': "those (map serializeItem xs) = Some bs'" and bss: "bss = b # bs'"
    by (auto split: option.splits)
  have lb: "length b < m" and lc: "length (concat bs') < m"
    using Cons.prems(3) bss by auto
  have hd: "readItem m (b @ (concat bs' @ rest)) = Some (x, concat bs' @ rest)"
    using Cons.prems(1) [of x b m "concat bs' @ rest"] b lb by simp
  have tl: "readItems m (length xs) (concat bs' @ rest) = Some (xs, rest)"
    using Cons.IH [OF _ bs' lc] Cons.prems(1) by simp
  show ?case using hd tl bss by simp
qed

lemma readPairs_roundtrip:
  assumes "\<And>kv bs n rest. kv \<in> set kvs \<Longrightarrow> serializeItem (fst kv) = Some bs \<Longrightarrow> length bs < n
              \<Longrightarrow> readItem n (bs @ rest) = Some (fst kv, rest)"
      and "\<And>kv bs n rest. kv \<in> set kvs \<Longrightarrow> serializeItem (snd kv) = Some bs \<Longrightarrow> length bs < n
              \<Longrightarrow> readItem n (bs @ rest) = Some (snd kv, rest)"
      and "those (map (\<lambda>kv. serializePair (serializeItem (fst kv)) (serializeItem (snd kv))) kvs)
             = Some bss"
      and "length (concat bss) < m"
  shows "readPairs m (length kvs) (concat bss @ rest) = Some (kvs, rest)"
  using assms
proof (induction kvs arbitrary: bss rest)
  case Nil
  then show ?case by simp
next
  case (Cons kv kvs)
  from Cons.prems(3) obtain a b bs' where a: "serializeItem (fst kv) = Some a"
    and b: "serializeItem (snd kv) = Some b"
    and bs': "those (map (\<lambda>kv. serializePair (serializeItem (fst kv)) (serializeItem (snd kv))) kvs)
                = Some bs'"
    and bss: "bss = (a @ b) # bs'"
    by (auto simp: serializePair_def split: option.splits)
  have la: "length a < m" and lb: "length b < m" and lc: "length (concat bs') < m"
    using Cons.prems(4) bss by auto
  have k: "readItem m (a @ (b @ concat bs' @ rest)) = Some (fst kv, b @ concat bs' @ rest)"
    using Cons.prems(1) [of kv a m] a la by simp
  have v: "readItem m (b @ (concat bs' @ rest)) = Some (snd kv, concat bs' @ rest)"
    using Cons.prems(2) [of kv b m] b lb by simp
  have tl: "readPairs m (length kvs) (concat bs' @ rest) = Some (kvs, rest)"
    using Cons.IH [OF _ _ bs' lc] Cons.prems(1,2) by simp
  show ?case using k v tl bss by simp
qed

lemma readItem_serializeItem:
  "serializeItem x = Some bs \<Longrightarrow> sizes_ok x \<Longrightarrow> length bs < n
     \<Longrightarrow> readItem n (bs @ rest) = Some (x, rest)"
proof (induction x arbitrary: bs n rest)
  case (BigIntegerItem i)
  then obtain n' where n: "n = Suc n'" by (cases n) auto
  from BigIntegerItem.prems(1) have bs: "bs = 33 # WriteVarBytes (IntToBytes i)" by auto
  from BigIntegerItem.prems(2) show ?case
    by (simp add: bs n ReadVarBytes_WriteVarBytes BytesToInt_le_IntToBytes)
next
  case (BoolItem b)
  then obtain n' where n: "n = Suc n'" by (cases n) auto
  from BoolItem.prems(1) have bs: "bs = [32, if b then 1 else 0]" by auto
  show ?case by (simp add: bs n)
next
  case (ByteArrayItem b)
  then obtain n' where n: "n = Suc n'" by (cases n) auto
  from ByteArrayItem.prems(1) have bs: "bs = 40 # WriteVarBytes b" by auto
  from ByteArrayItem.prems(2) show ?case by (simp add: bs n ReadVarBytes_WriteVarBytes)
next
  case (ArrayItem xs)
  then obtain n' where n: "n = Suc n'" by (cases n) auto
  from ArrayItem.prems(1) obtain bss where bss: "those (map serializeItem xs) = Some bss"
    and bs: "bs = 64 # WriteVarUint (length xs) @ concat bss"
    by auto
  have len: "length (concat bss) < n'" using ArrayItem.prems(3) bs n by simp
  have ok: "list_all sizes_ok xs" and k: "length xs < 2 ^ 64" using ArrayItem.prems(2) by auto
  have "readItems n' (length xs) (concat bss @ rest) = Some (xs, rest)"
  proof (rule readItems_roundtrip [OF _ bss len])
    fix x b m r
    assume "x \<in> set xs" "serializeItem x = Some b" "length b < m"
    then show "readItem m (b @ r) = Some (x, r)"
      using ArrayItem.IH [of x b m r] ok by (simp add: list_all_iff)
  qed
  then show ?case using bs n k by (simp add: ReadVarUint_WriteVarUint)
next
  case (StructItem xs)
  then obtain n' where n: "n = Suc n'" by (cases n) auto
  from StructItem.prems(1) obtain bss where bss: "those (map serializeItem xs) = Some bss"
    and bs: "bs = 65 # WriteVarUint (length xs) @ concat bss"
    by auto
  have len: "length (concat bss) < n'" using StructItem.prems(3) bs n by simp
  have ok: "list_all sizes_ok xs" and k: "length xs < 2 ^ 64" using StructItem.prems(2) by auto
  have "readItems n' (length xs) (concat bss @ rest) = Some (xs, rest)"
  proof (rule readItems_roundtrip [OF _ bss len])
    fix x b m r
    assume "x \<in> set xs" "serializeItem x = Some b" "length b < m"
    then show "readItem m (b @ r) = Some (x, r)"
      using StructItem.IH [of x b m r] ok by (simp add: list_all_iff)
  qed
  then show ?case using bs n k by (simp add: ReadVarUint_WriteVarUint)
next
  case (MapItem kvs)
  then obtain n' where n: "n = Suc n'" by (cases n) auto
  from MapItem.prems(1) obtain bss where
    bss: "those (map (\<lambda>kv. serializePair (serializeItem (fst kv)) (serializeItem (snd kv))) kvs)
            = Some bss"
    and bs: "bs = 72 # WriteVarUint (length kvs) @ concat bss"
    by auto
  have len: "length (concat bss) < n'" using MapItem.prems(3) bs n by simp
  have ok: "list_all (\<lambda>kv. sizes_ok (fst kv) \<and> sizes_ok (snd kv)) kvs"
    and k: "length kvs < 2 ^ 64" using MapItem.prems(2) by auto
  have "readPairs n' (length kvs) (concat bss @ rest) = Some (kvs, rest)"
  proof (rule readPairs_roundtrip [OF _ _ bss len])
    fix kv b m r
    assume kv: "kv \<in> set kvs" and s: "serializeItem (fst kv) = Some b" and l: "length b < m"
    have "fst kv \<in> Basic_BNFs.fsts kv" by (cases kv) (simp add: fsts.simps)
    then show "readItem m (b @ r) = Some (fst kv, r)"
      using MapItem.IH(1) [OF kv _ s _ l] ok kv by (simp add: list_all_iff)
  next
    fix kv b m r
    assume kv: "kv \<in> set kvs" and s: "serializeItem (snd kv) = Some b" and l: "length b < m"
    have "snd kv \<in> Basic_BNFs.snds kv" by (cases kv) (simp add: snds.simps)
    then show "readItem m (b @ r) = Some (snd kv, r)"
      using MapItem.IH(2) [OF kv _ s _ l] ok kv by (simp add: list_all_iff)
  qed
  then show ?case using bs n k by (simp add: ReadVarUint_WriteVarUint)
next
  case (InteropItem h)
  then show ?case by simp
next
  case NullItem
  then show ?case by simp
qed

theorem DeserializeItem_serializeItem:
  "serializeItem x = Some bs \<Longrightarrow> sizes_ok x \<Longrightarrow> DeserializeItem bs = Some x"
  using readItem_serializeItem [of x bs "Suc (length bs)" "[]"]
  by (simp add: DeserializeItem_def)

lemma those_map_Some_iff:
  "(those (map f xs) = Some ys) = list_all2 (\<lambda>x y. f x = Some y) xs ys"
proof (induction xs arbitrary: ys)
  case Nil
  then show ?case by auto
next
  case (Cons x xs)
  show ?case
  proof (cases "f x")
    case None
    then show ?thesis by (auto simp: list_all2_Cons1)
  next
    case (Some y)
    then show ?thesis using Cons.IH by (auto simp: list_all2_Cons1 split: option.splits)
  qed
qed

lemma those_map_None_iff:
  "(those (map f xs) = None) = (\<exists>x \<in> set xs. f x = None)"
  by (induction xs) (auto split: option.splits)

lemma serializeItem_None_iff: "(serializeItem t = None) = (\<not> serializable t)"
proof (induction t)
  case (ArrayItem xs)
  then show ?case by (auto simp: those_map_None_iff list_all_iff)
next
  case (StructItem xs)
  then show ?case by (auto simp: those_map_None_iff list_all_iff)
next
  case (MapItem kvs)
  have "\<And>kv. kv \<in> set kvs \<Longrightarrow>
          (serializePair (serializeItem (fst kv)) (serializeItem (snd kv)) = None)
            = (\<not> (serializable (fst kv) \<and> serializable (snd kv)))"
  proof -
    fix kv assume kv: "kv \<in> set kvs"
    have "fst kv \<in> Basic_BNFs.fsts kv" "snd kv \<in> Basic_BNFs.snds kv"
      by (cases kv; simp add: fsts.simps snds.simps)+
    then have "(serializeItem (fst kv) = None) = (\<not> serializable (fst kv))"
              "(serializeItem (snd kv) = None) = (\<not> serializable (snd kv))"
      using MapItem kv by blast+
    then show "(serializePair (serializeItem (fst kv)) (serializeItem (snd kv)) = None)
            = (\<not> (serializable (fst kv) \<and> serializable (snd kv)))"
      by (auto simp: serializePair_def split: option.splits)
  qed
  then show ?case by (auto simp: those_map_None_iff list_all_iff)
qed auto

lemma toTree_unfolds: "toTree n h seen x = Some t \<Longrightarrow> unfolds h x t"
proof (induction n arbitrary: seen x t)
  case 0
  then show ?case by simp
next
  case (Suc n)
  show ?case
  proof (cases x)
    case (Ref a)
    with Suc.prems have a: "a < length h" and ns: "a \<notin> set seen"
      by (auto split: if_splits)
    show ?thesis
    proof (cases "h ! a")
      case (ArrayObj xs)
      with Suc.prems Ref a ns obtain ts where t: "t = ArrayItem ts"
        and ts: "those (map (toTree n h (a # seen)) xs) = Some ts"
        by auto
      from ts have "list_all2 (\<lambda>x y. toTree n h (a # seen) x = Some y) xs ts"
        by (simp add: those_map_Some_iff)
      then have "list_all2 (unfolds h) xs ts"
        by (rule list_all2_mono) (rule Suc.IH)
      then show ?thesis using a ArrayObj Ref t by (auto intro: unfolds.intros)
    next
      case (StructObj xs)
      with Suc.prems Ref a ns obtain ts where t: "t = StructItem ts"
        and ts: "those (map (toTree n h (a # seen)) xs) = Some ts"
        by auto
      from ts have "list_all2 (\<lambda>x y. toTree n h (a # seen) x = Some y) xs ts"
        by (simp add: those_map_Some_iff)
      then have "list_all2 (unfolds h) xs ts"
        by (rule list_all2_mono) (rule Suc.IH)
      then show ?thesis using a StructObj Ref t by (auto intro: unfolds.intros)
    next
      case (MapObj kvs)
      with Suc.prems Ref a ns obtain ts where t: "t = MapItem ts"
        and ts: "those (map (\<lambda>kv. snapPair (toTree n h (a # seen) (fst kv))
                                          (toTree n h (a # seen) (snd kv))) kvs) = Some ts"
        by auto
      from ts have "list_all2 (\<lambda>kv y. snapPair (toTree n h (a # seen) (fst kv))
                                          (toTree n h (a # seen) (snd kv)) = Some y) kvs ts"
        by (simp add: those_map_Some_iff)
      then have "list_all2 (\<lambda>kv t. unfolds h (fst kv) (fst t) \<and> unfolds h (snd kv) (snd t)) kvs ts"
      proof (rule list_all2_mono)
        fix kv y
        assume "snapPair (toTree n h (a # seen) (fst kv)) (toTree n h (a # seen) (snd kv)) = Some y"
        then have "toTree n h (a # seen) (fst kv) = Some (fst y)"
                  "toTree n h (a # seen) (snd kv) = Some (snd y)"
          by (auto simp: snapPair_def split: option.splits)
        then show "unfolds h (fst kv) (fst y) \<and> unfolds h (snd kv) (snd y)"
          using Suc.IH by blast
      qed
      then show ?thesis using a MapObj Ref t by (auto intro: unfolds.intros)
    next
      case (InteropObj i)
      with Suc.prems Ref a ns show ?thesis by (auto intro: unfolds.intros)
    next
      case (IteratorObj es pos)
      with Suc.prems Ref a ns show ?thesis by (auto intro: unfolds.intros)
    qed
  qed (use Suc.prems in \<open>auto intro: unfolds.intros\<close>)
qed

lemma unfolds_det: "unfolds h x t \<Longrightarrow> unfolds h x t' \<Longrightarrow> t = t'"
proof (induction arbitrary: t' rule: unfolds.induct)
  case (u_array a xs ts)
  from u_array.prems u_array.hyps obtain ts' where t': "t' = ArrayItem ts'"
    and l: "list_all2 (unfolds h) xs ts'"
    by (auto elim: unfolds.cases)
  have "ts = ts'"
    using u_array.IH l
  proof (induction xs ts arbitrary: ts' rule: list_all2_induct)
    case Nil
    then show ?case by simp
  next
    case (Cons x xs y ys)
    then show ?case by (cases ts') auto
  qed
  then show ?case using t' by simp
next
  case (u_struct a xs ts)
  from u_struct.prems u_struct.hyps obtain ts' where t': "t' = StructItem ts'"
    and l: "list_all2 (unfolds h) xs ts'"
    by (auto elim: unfolds.cases)
  have "ts = ts'"
    using u_struct.IH l
  proof (induction xs ts arbitrary: ts' rule: list_all2_induct)
    case Nil
    then show ?case by simp
  next
    case (Cons x xs y ys)
    then show ?case by (cases ts') auto
  qed
  then show ?case using t' by simp
next
  case (u_map a kvs ts)
  from u_map.prems u_map.hyps obtain ts' where t': "t' = MapItem ts'"
    and l: "list_all2 (\<lambda>kv t. unfolds h (fst kv) (fst t) \<and> unfolds h (snd kv) (snd t)) kvs ts'"
    by (auto elim: unfolds.cases)
  have "ts = ts'"
    using u_map.IH l
  proof (induction kvs ts arbitrary: ts' rule: list_all2_induct)
    case Nil
    then show ?case by simp
  next
    case (Cons x xs y ys)
    then show ?case by (cases ts') (auto simp: prod_eq_iff)
  qed
  then show ?case using t' by simp
qed (auto elim: unfolds.cases)

lemma tsize_elem: "t \<in> set ts \<Longrightarrow> tsize t < sum_list (map (\<lambda>x. Suc (tsize x)) ts)"
  by (induction ts) auto

lemma tsize_pair_elem:
  "kv \<in> set kvs \<Longrightarrow>
     tsize (fst kv) + tsize (snd kv)
       < sum_list (map (\<lambda>kv. Suc (tsize (fst kv) + tsize (snd kv))) kvs)"
  by (induction kvs) auto

lemma seen_bound:
  assumes "distinct seen" "set seen \<subseteq> {..<m}"
  shows "length seen \<le> m"
proof -
  have "length seen = card (set seen)" using assms(1) by (simp add: distinct_card)
  also have "\<dots> \<le> card {..<m}" using assms(2) by (intro card_mono) auto
  finally show ?thesis by simp
qed

definition seen_ok :: "Object list \<Rightarrow> nat list \<Rightarrow> StackItem \<Rightarrow> nat \<Rightarrow> bool" where
  "seen_ok h seen t n =
     (distinct seen \<and> set seen \<subseteq> {..<length h}
      \<and> (\<forall>a \<in> set seen. \<exists>ta. unfolds h (Ref a) ta \<and> tsize t < tsize ta)
      \<and> Suc (length h) \<le> n + length seen)"

lemma seen_ok_pos: "seen_ok h seen t n \<Longrightarrow> \<exists>m. n = Suc m"
proof -
  assume a: "seen_ok h seen t n"
  then have "length seen \<le> length h" by (auto simp: seen_ok_def intro: seen_bound)
  with a have "0 < n" by (auto simp: seen_ok_def)
  then show ?thesis by (cases n) auto
qed

lemma seen_ok_fresh:
  assumes ok: "seen_ok h seen t n" and u: "unfolds h (Ref a) t"
  shows "a \<notin> set seen"
proof
  assume "a \<in> set seen"
  with ok obtain ta where "unfolds h (Ref a) ta" "tsize t < tsize ta"
    by (auto simp: seen_ok_def)
  with u show False using unfolds_det by fastforce
qed

lemma seen_ok_child:
  assumes ok: "seen_ok h seen t (Suc m)" and u: "unfolds h (Ref a) t" and a: "a < length h"
      and c: "tsize tc < tsize t"
  shows "seen_ok h (a # seen) tc m"
proof -
  have ns: "a \<notin> set seen" using ok u by (rule seen_ok_fresh)
  have "\<forall>b \<in> set (a # seen). \<exists>tb. unfolds h (Ref b) tb \<and> tsize tc < tsize tb"
  proof
    fix b assume "b \<in> set (a # seen)"
    then consider "b = a" | "b \<in> set seen" by auto
    then show "\<exists>tb. unfolds h (Ref b) tb \<and> tsize tc < tsize tb"
    proof cases
      case 1
      then show ?thesis using u c by blast
    next
      case 2
      with ok obtain tb where "unfolds h (Ref b) tb" "tsize t < tsize tb"
        by (auto simp: seen_ok_def)
      then show ?thesis using c by (intro exI [of _ tb]) simp
    qed
  qed
  then show ?thesis
    using ok ns a by (auto simp: seen_ok_def)
qed

lemma unfolds_toTree:
  "unfolds h x t \<Longrightarrow> seen_ok h seen t n \<Longrightarrow> toTree n h seen x = Some t"
proof (induction arbitrary: seen n rule: unfolds.induct)
  case (u_int i)
  then show ?case using seen_ok_pos by fastforce
next
  case (u_bool b)
  then show ?case using seen_ok_pos by fastforce
next
  case (u_bytes bs)
  then show ?case using seen_ok_pos by fastforce
next
  case u_null
  then show ?case using seen_ok_pos by fastforce
next
  case (u_array a xs ts)
  from u_array.prems obtain m where n: "n = Suc m" using seen_ok_pos by blast
  have u: "unfolds h (Ref a) (ArrayItem ts)"
    using u_array.hyps(1,2) u_array.IH
    by (intro unfolds.u_array [of a h xs ts]) (auto elim: list_all2_mono)
  have ns: "a \<notin> set seen"
    using u_array.prems u by (rule seen_ok_fresh)
  have "list_all2 (\<lambda>x y. toTree m h (a # seen) x = Some y) xs ts"
    using u_array.IH
  proof (rule list.rel_mono_strong)
    fix x y
    assume "x \<in> set xs" and y: "y \<in> set ts"
       and xy: "unfolds h x y \<and> (\<forall>seen n. seen_ok h seen y n \<longrightarrow> toTree n h seen x = Some y)"
    have "tsize y < tsize (ArrayItem ts)" using tsize_elem [OF y] by simp
    then have "seen_ok h (a # seen) y m"
      using seen_ok_child [OF _ u u_array.hyps(1)] u_array.prems n by blast
    with xy show "toTree m h (a # seen) x = Some y" by blast
  qed
  then have "those (map (toTree m h (a # seen)) xs) = Some ts"
    by (simp add: those_map_Some_iff)
  then show ?case using n ns u_array.hyps by simp
next
  case (u_struct a xs ts)
  from u_struct.prems obtain m where n: "n = Suc m" using seen_ok_pos by blast
  have u: "unfolds h (Ref a) (StructItem ts)"
    using u_struct.hyps(1,2) u_struct.IH
    by (intro unfolds.u_struct [of a h xs ts]) (auto elim: list_all2_mono)
  have ns: "a \<notin> set seen"
    using u_struct.prems u by (rule seen_ok_fresh)
  have "list_all2 (\<lambda>x y. toTree m h (a # seen) x = Some y) xs ts"
    using u_struct.IH
  proof (rule list.rel_mono_strong)
    fix x y
    assume "x \<in> set xs" and y: "y \<in> set ts"
       and xy: "unfolds h x y \<and> (\<forall>seen n. seen_ok h seen y n \<longrightarrow> toTree n h seen x = Some y)"
    have "tsize y < tsize (StructItem ts)" using tsize_elem [OF y] by simp
    then have "seen_ok h (a # seen) y m"
      using seen_ok_child [OF _ u u_struct.hyps(1)] u_struct.prems n by blast
    with xy show "toTree m h (a # seen) x = Some y" by blast
  qed
  then have "those (map (toTree m h (a # seen)) xs) = Some ts"
    by (simp add: those_map_Some_iff)
  then show ?case using n ns u_struct.hyps by simp
next
  case (u_map a kvs ts)
  from u_map.prems obtain m where n: "n = Suc m" using seen_ok_pos by blast
  have u: "unfolds h (Ref a) (MapItem ts)"
    using u_map.hyps(1,2) u_map.IH
    by (intro unfolds.u_map [of a h kvs ts]) (auto elim: list_all2_mono)
  have ns: "a \<notin> set seen"
    using u_map.prems u by (rule seen_ok_fresh)
  have "list_all2 (\<lambda>kv y. snapPair (toTree m h (a # seen) (fst kv))
                                     (toTree m h (a # seen) (snd kv)) = Some y) kvs ts"
    using u_map.IH
  proof (rule list.rel_mono_strong)
    fix kv y
    assume "kv \<in> set kvs" and y: "y \<in> set ts"
       and xy: "(unfolds h (fst kv) (fst y)
                  \<and> (\<forall>seen n. seen_ok h seen (fst y) n \<longrightarrow> toTree n h seen (fst kv) = Some (fst y)))
                \<and> (unfolds h (snd kv) (snd y)
                  \<and> (\<forall>seen n. seen_ok h seen (snd y) n \<longrightarrow> toTree n h seen (snd kv) = Some (snd y)))"
    have "tsize (fst y) < tsize (MapItem ts)" "tsize (snd y) < tsize (MapItem ts)"
      using tsize_pair_elem [OF y] by simp_all
    then have "seen_ok h (a # seen) (fst y) m" "seen_ok h (a # seen) (snd y) m"
      using seen_ok_child [OF _ u u_map.hyps(1)] u_map.prems n by blast+
    with xy have "toTree m h (a # seen) (fst kv) = Some (fst y)"
                 "toTree m h (a # seen) (snd kv) = Some (snd y)" by blast+
    then show "snapPair (toTree m h (a # seen) (fst kv)) (toTree m h (a # seen) (snd kv)) = Some y"
      by (simp add: snapPair_def)
  qed
  then have "those (map (\<lambda>kv. snapPair (toTree m h (a # seen) (fst kv))
                                        (toTree m h (a # seen) (snd kv))) kvs) = Some ts"
    by (simp add: those_map_Some_iff)
  then show ?case using n ns u_map.hyps by simp
next
  case (u_interop a i)
  from u_interop.prems obtain m where n: "n = Suc m" using seen_ok_pos by blast
  have u: "unfolds h (Ref a) (InteropItem i)"
    using u_interop.hyps by (rule unfolds.u_interop)
  have ns: "a \<notin> set seen"
    using u_interop.prems u by (rule seen_ok_fresh)
  then show ?case using n u_interop.hyps by simp
next
  case (u_iterator a es pos)
  from u_iterator.prems obtain m where n: "n = Suc m" using seen_ok_pos by blast
  have u: "unfolds h (Ref a) (InteropItem 0)"
    using u_iterator.hyps by (rule unfolds.u_iterator)
  have ns: "a \<notin> set seen"
    using u_iterator.prems u by (rule seen_ok_fresh)
  then show ?case using n u_iterator.hyps by simp
qed

lemma toTree_iff_unfolds: "(toTree (Suc (length h)) h [] x = Some t) = unfolds h x t"
proof
  assume "toTree (Suc (length h)) h [] x = Some t"
  then show "unfolds h x t" by (rule toTree_unfolds)
next
  assume "unfolds h x t"
  moreover have "seen_ok h [] t (Suc (length h))" by (simp add: seen_ok_def)
  ultimately show "toTree (Suc (length h)) h [] x = Some t" by (rule unfolds_toTree)
qed

lemma unfolds_append: "unfolds h x t \<Longrightarrow> unfolds (h @ e) x t"
proof (induction rule: unfolds.induct)
  case (u_array a xs ts)
  have "list_all2 (unfolds (h @ e)) xs ts"
    using u_array.IH by (rule list_all2_mono) simp
  then show ?case using u_array.hyps
    by (intro unfolds.u_array [of a _ xs]) (simp_all add: nth_append)
next
  case (u_struct a xs ts)
  have "list_all2 (unfolds (h @ e)) xs ts"
    using u_struct.IH by (rule list_all2_mono) simp
  then show ?case using u_struct.hyps
    by (intro unfolds.u_struct [of a _ xs]) (simp_all add: nth_append)
next
  case (u_map a kvs ts)
  have "list_all2 (\<lambda>kv t. unfolds (h @ e) (fst kv) (fst t) \<and> unfolds (h @ e) (snd kv) (snd t)) kvs ts"
    using u_map.IH by (rule list_all2_mono) simp
  then show ?case using u_map.hyps
    by (intro unfolds.u_map [of a _ kvs]) (simp_all add: nth_append)
next
  case (u_interop a i)
  then show ?case by (intro unfolds.u_interop) (simp_all add: nth_append)
next
  case (u_iterator a es pos)
  then show ?case by (intro unfolds.u_iterator [of a _ es pos]) (simp_all add: nth_append)
qed (auto intro: unfolds.intros)

lemma fromTree_extends:
  "\<exists>e. fst (fromTree h t) = h @ e"
  "\<exists>e. fst (fromTrees h ts) = h @ e"
  "\<exists>e. fst (fromPairs h kvs) = h @ e"
proof (induction h t and h ts and h kvs rule: fromTree_fromTrees_fromPairs.induct)
  case (6 h xs)
  then show ?case by (auto split: prod.splits)
next
  case (7 h xs)
  then show ?case by (auto split: prod.splits)
next
  case (8 h kvs)
  then show ?case by (auto split: prod.splits)
next
  case (10 h x xs)
  obtain h1 y where a: "fromTree h x = (h1, y)" by (cases "fromTree h x")
  obtain h2 ys where b: "fromTrees h1 xs = (h2, ys)" by (cases "fromTrees h1 xs")
  from 10(1) a obtain e1 where "h1 = h @ e1" by auto
  moreover from 10(2) [OF a [symmetric]] b obtain e2 where "h2 = h1 @ e2" by auto
  ultimately show ?case using a b by simp
next
  case (12 h tk tv kvs)
  obtain h1 k where a: "fromTree h tk = (h1, k)" by (cases "fromTree h tk")
  obtain h2 v where b: "fromTree h1 tv = (h2, v)" by (cases "fromTree h1 tv")
  obtain h3 ys where c: "fromPairs h2 kvs = (h3, ys)" by (cases "fromPairs h2 kvs")
  from 12(1) a obtain e1 where "h1 = h @ e1" by auto
  moreover from 12(2) [OF a [symmetric]] b obtain e2 where "h2 = h1 @ e2" by auto
  moreover from 12(3) [OF a [symmetric] b [symmetric]] c obtain e3 where "h3 = h2 @ e3" by auto
  ultimately show ?case using a b c by simp
qed auto

lemma fromTree_unfolds:
  "unfolds (fst (fromTree h t)) (snd (fromTree h t)) t"
  "list_all2 (unfolds (fst (fromTrees h ts))) (snd (fromTrees h ts)) ts"
  "list_all2 (\<lambda>kv t. unfolds (fst (fromPairs h kvs)) (fst kv) (fst t)
                      \<and> unfolds (fst (fromPairs h kvs)) (snd kv) (snd t))
     (snd (fromPairs h kvs)) kvs"
proof (induction h t and h ts and h kvs rule: fromTree_fromTrees_fromPairs.induct)
  case (5 h i)
  show ?case by (auto intro!: unfolds.u_interop)
next
  case (6 h xs)
  obtain h1 ys where a: "fromTrees h xs = (h1, ys)" by (cases "fromTrees h xs")
  from 6 a have "list_all2 (unfolds h1) ys xs" by simp
  then have "list_all2 (unfolds (h1 @ [ArrayObj ys])) ys xs"
    by (rule list_all2_mono) (rule unfolds_append)
  then show ?case using a by (auto intro!: unfolds.u_array [of _ _ ys])
next
  case (7 h xs)
  obtain h1 ys where a: "fromTrees h xs = (h1, ys)" by (cases "fromTrees h xs")
  from 7 a have "list_all2 (unfolds h1) ys xs" by simp
  then have "list_all2 (unfolds (h1 @ [StructObj ys])) ys xs"
    by (rule list_all2_mono) (rule unfolds_append)
  then show ?case using a by (auto intro!: unfolds.u_struct [of _ _ ys])
next
  case (8 h kvs)
  obtain h1 ys where a: "fromPairs h kvs = (h1, ys)" by (cases "fromPairs h kvs")
  from 8 a have "list_all2 (\<lambda>kv t. unfolds h1 (fst kv) (fst t) \<and> unfolds h1 (snd kv) (snd t)) ys kvs"
    by simp
  then have "list_all2 (\<lambda>kv t. unfolds (h1 @ [MapObj ys]) (fst kv) (fst t)
                               \<and> unfolds (h1 @ [MapObj ys]) (snd kv) (snd t)) ys kvs"
    by (rule list_all2_mono) (auto intro: unfolds_append)
  then show ?case using a by (auto intro!: unfolds.u_map [of _ _ ys])
next
  case (10 h x xs)
  obtain h1 y where a: "fromTree h x = (h1, y)" by (cases "fromTree h x")
  obtain h2 ys where b: "fromTrees h1 xs = (h2, ys)" by (cases "fromTrees h1 xs")
  from fromTree_extends(2) [of h1 xs] b obtain e where e: "h2 = h1 @ e" by auto
  from 10(1) a have "unfolds h1 y x" by simp
  then have "unfolds h2 y x" unfolding e by (rule unfolds_append)
  moreover from 10(2) [OF a [symmetric]] b have "list_all2 (unfolds h2) ys xs" by simp
  ultimately show ?case using a b by simp
next
  case (12 h tk tv kvs)
  obtain h1 k where a: "fromTree h tk = (h1, k)" by (cases "fromTree h tk")
  obtain h2 v where b: "fromTree h1 tv = (h2, v)" by (cases "fromTree h1 tv")
  obtain h3 ys where c: "fromPairs h2 kvs = (h3, ys)" by (cases "fromPairs h2 kvs")
  from fromTree_extends(1) [of h1 tv] b obtain e2 where e2: "h2 = h1 @ e2" by auto
  from fromTree_extends(3) [of h2 kvs] c obtain e3 where e3: "h3 = h2 @ e3" by auto
  from 12(1) a have "unfolds h1 k tk" by simp
  then have "unfolds h3 k tk" unfolding e3 e2 by (intro unfolds_append)
  moreover from 12(2) [OF a [symmetric]] b have "unfolds h2 v tv" by simp
  then have "unfolds h3 v tv" unfolding e3 by (rule unfolds_append)
  moreover from 12(3) [OF a [symmetric] b [symmetric]] c
  have "list_all2 (\<lambda>kv t. unfolds h3 (fst kv) (fst t) \<and> unfolds h3 (snd kv) (snd t)) ys kvs"
    by simp
  ultimately show ?case using a b c by simp
qed (auto intro: unfolds.intros)

section \<open>The VM: runs\<close>

lemma step_StackTooBig_iff:
  "(step C i s = Inl StackTooBig) =
     (\<not> (0 < GasLimit C \<and> GasLimit C < gasConsumed s + getPrice C i)
      \<and> (\<exists>s1. exec C i (s\<lparr>gasConsumed := gasConsumed s + getPrice C i\<rparr>) = Some s1
                \<and> MaxStackSize C < itemCount s1))"
  by (auto simp: step_def Let_def split: option.splits)

lemma step_Inr_iff:
  "(step C i s = Inr s1) =
     (\<not> (0 < GasLimit C \<and> GasLimit C < gasConsumed s + getPrice C i)
      \<and> exec C i (s\<lparr>gasConsumed := gasConsumed s + getPrice C i\<rparr>) = Some s1
      \<and> itemCount s1 \<le> MaxStackSize C)"
  by (auto simp: step_def Let_def split: option.splits)

lemma run_append:
  "run C (p @ q) k s =
     (case run C p k s of Inl f \<Rightarrow> Inl f | Inr s1 \<Rightarrow> run C q (k + length p) s1)"
  by (induction p arbitrary: k s) (auto split: sum.splits)

lemma run_fault_index: "run C p k s = Inl (j, f) \<Longrightarrow> k \<le> j \<and> j < k + length p"
proof (induction p arbitrary: k s)
  case Nil
  then show ?case by simp
next
  case (Cons i p)
  show ?case
  proof (cases "step C i s")
    case (Inl f')
    with Cons.prems show ?thesis by simp
  next
    case (Inr s1)
    with Cons.prems have "run C p (Suc k) s1 = Inl (j, f)" by simp
    from Cons.IH [OF this] show ?thesis by simp
  qed
qed

lemma run_fault_at:
  "run C p k s = Inl (j, f) \<Longrightarrow>
     \<exists>s'. run C (take (j - k) p) k s = Inr s' \<and> step C (p ! (j - k)) s' = Inl f"
proof (induction p arbitrary: k s)
  case Nil
  then show ?case by simp
next
  case (Cons i p)
  show ?case
  proof (cases "step C i s")
    case (Inl f')
    with Cons.prems show ?thesis by simp
  next
    case (Inr s1)
    with Cons.prems have r: "run C p (Suc k) s1 = Inl (j, f)" by simp
    from run_fault_index [OF r] have j: "Suc k \<le> j" by simp
    then obtain d where d: "j - k = Suc d" "j - Suc k = d" by (cases "j - k") auto
    from Cons.IH [OF r] obtain s' where
      "run C (take d p) (Suc k) s1 = Inr s'" "step C (p ! d) s' = Inl f"
      using d by auto
    then show ?thesis using Inr d by simp
  qed
qed

lemma run_faults_when:
  "run C (take n p) k s = Inr s' \<Longrightarrow> n < length p \<Longrightarrow> step C (p ! n) s' = Inl f
     \<Longrightarrow> run C p k s = Inl (k + n, f)"
proof -
  assume a: "run C (take n p) k s = Inr s'" and n: "n < length p"
     and f: "step C (p ! n) s' = Inl f"
  have p: "p = take n p @ (p ! n) # drop (Suc n) p"
    using n by (simp add: id_take_nth_drop)
  have "run C (take n p @ (p ! n) # drop (Suc n) p) k s = Inl (k + n, f)"
    using a f n by (simp add: run_append)
  with p show ?thesis by simp
qed

lemma run_Inr_count:
  "run C p k s = Inr s' \<Longrightarrow> p \<noteq> [] \<Longrightarrow> itemCount s' \<le> MaxStackSize C"
proof (induction p arbitrary: k s)
  case Nil
  then show ?case by simp
next
  case (Cons i p)
  from Cons.prems obtain s1 where s1: "step C i s = Inr s1" and r: "run C p (Suc k) s1 = Inr s'"
    by (auto split: sum.splits)
  show ?case
  proof (cases "p = []")
    case True
    with r s1 show ?thesis by (simp add: step_Inr_iff)
  next
    case False
    with Cons.IH [OF r] show ?thesis by simp
  qed
qed

lemma reach_Nil: "reach n h [] = []"
  by (induction n) (simp_all add: expand_def)

lemma itemCount_no_heap:
  "heap s = [] \<Longrightarrow> itemCount s = length (estack s) + length (astack s)"
  by (simp add: itemCount_def reachable_def)

lemma step_push:
  "step (cfg m) (PUSHINT 1) (ints n) = (if n < m then Inr (ints (Suc n)) else Inl StackTooBig)"
  by (simp add: step_def ints_def cfg_def itemCount_no_heap)

lemma step_drop:
  "step (cfg m) DROP (ints (Suc n)) = (if n \<le> m then Inr (ints n) else Inl StackTooBig)"
  by (simp add: step_def ints_def cfg_def itemCount_no_heap)

lemma run_pushes:
  "n + j \<le> m \<Longrightarrow> run (cfg m) (replicate j (PUSHINT 1)) k (ints n) = Inr (ints (n + j))"
  by (induction j arbitrary: n k) (simp_all add: step_push)

lemma run_drops:
  "n \<le> m \<Longrightarrow> j \<le> n \<Longrightarrow> run (cfg m) (replicate j DROP) k (ints n) = Inr (ints (n - j))"
proof (induction j arbitrary: n k)
  case 0
  then show ?case by simp
next
  case (Suc j)
  then obtain n' where n: "n = Suc n'" by (cases n) auto
  with Suc show ?case by (simp add: step_drop)
qed

section \<open>The VM: the serialization round trip\<close>

text \<open>The byte string of \<^verbatim>\<open>TestSerializeMapCompat\<close>: the map with the entry "key": "value".\<close>

lemma TestSerializeMapCompat:
  "serializeItem (MapItem [(ByteArrayItem [107, 101, 121], ByteArrayItem [118, 97, 108, 117, 101])])
     = Some [72, 1, 40, 3, 107, 101, 121, 40, 5, 118, 97, 108, 117, 101]"
  by (simp add: serializePair_def WriteVarBytes_def WriteVarUint_def)

text \<open>
  C7. Let the top of the evaluation stack denote the value \<^verbatim>\<open>t\<close>: following its references
  gives the finite tree \<^verbatim>\<open>t\<close>, which is the case exactly when no compound item reachable
  from it contains itself. If \<^verbatim>\<open>t\<close> is made of booleans, integers, byte arrays, arrays,
  structs and maps only, \<^verbatim>\<open>Runtime.Serialize\<close> followed by \<^verbatim>\<open>Runtime.Deserialize\<close> succeeds
  and leaves on top an item that denotes the same \<^verbatim>\<open>t\<close>. If the top item has no finite
  unfolding (it is cyclic), or its unfolding holds an interop handle, \<^verbatim>\<open>Runtime.Serialize\<close>
  faults.
\<close>

theorem Serialize_Deserialize_round_trip:
  assumes st: "estack s = x # rest"
  shows "(unfolds (heap s) x t \<and> serializable t \<and> sizes_ok t \<longrightarrow>
            (\<exists>bs. exec C (SYSCALL RuntimeSerialize) s = Some (s\<lparr>estack := BytesV bs # rest\<rparr>)
               \<and> exec C (SYSCALL RuntimeDeserialize) (s\<lparr>estack := BytesV bs # rest\<rparr>)
                   = Some (s\<lparr>estack := snd (fromTree (heap s) t) # rest,
                             heap := fst (fromTree (heap s) t)\<rparr>)
               \<and> unfolds (fst (fromTree (heap s) t)) (snd (fromTree (heap s) t)) t))
       \<and> ((\<forall>t'. \<not> unfolds (heap s) x t') \<longrightarrow> exec C (SYSCALL RuntimeSerialize) s = None)
       \<and> (unfolds (heap s) x t \<and> \<not> serializable t \<longrightarrow>
            exec C (SYSCALL RuntimeSerialize) s = None)
       \<and> (x = Ref a \<and> a < length (heap s) \<and> heap s ! a = InteropObj i \<longrightarrow>
            exec C (SYSCALL RuntimeSerialize) s = None)"
proof -
  have good: "unfolds (heap s) x t \<and> serializable t \<and> sizes_ok t \<longrightarrow>
            (\<exists>bs. exec C (SYSCALL RuntimeSerialize) s = Some (s\<lparr>estack := BytesV bs # rest\<rparr>)
               \<and> exec C (SYSCALL RuntimeDeserialize) (s\<lparr>estack := BytesV bs # rest\<rparr>)
                   = Some (s\<lparr>estack := snd (fromTree (heap s) t) # rest,
                             heap := fst (fromTree (heap s) t)\<rparr>)
               \<and> unfolds (fst (fromTree (heap s) t)) (snd (fromTree (heap s) t)) t)"
  proof
    assume h: "unfolds (heap s) x t \<and> serializable t \<and> sizes_ok t"
    then obtain bs where bs: "serializeItem t = Some bs"
      using serializeItem_None_iff [of t] by (cases "serializeItem t") auto
    from h have tt: "toTree (Suc (length (heap s))) (heap s) [] x = Some t"
      by (simp add: toTree_iff_unfolds)
    have a: "exec C (SYSCALL RuntimeSerialize) s = Some (s\<lparr>estack := BytesV bs # rest\<rparr>)"
      using st tt bs by (simp add: Serialize_def)
    have d: "DeserializeItem bs = Some t"
      using bs h by (intro DeserializeItem_serializeItem) simp_all
    have b: "exec C (SYSCALL RuntimeDeserialize) (s\<lparr>estack := BytesV bs # rest\<rparr>)
               = Some (s\<lparr>estack := snd (fromTree (heap s) t) # rest,
                         heap := fst (fromTree (heap s) t)\<rparr>)"
      using d by (simp add: split_beta)
    show "\<exists>bs. exec C (SYSCALL RuntimeSerialize) s = Some (s\<lparr>estack := BytesV bs # rest\<rparr>)
               \<and> exec C (SYSCALL RuntimeDeserialize) (s\<lparr>estack := BytesV bs # rest\<rparr>)
                   = Some (s\<lparr>estack := snd (fromTree (heap s) t) # rest,
                             heap := fst (fromTree (heap s) t)\<rparr>)
               \<and> unfolds (fst (fromTree (heap s) t)) (snd (fromTree (heap s) t)) t"
      using a b fromTree_unfolds(1) [of "heap s" t] by blast
  qed
  have none: "\<And>u. unfolds (heap s) x u \<Longrightarrow> \<not> serializable u
                \<Longrightarrow> exec C (SYSCALL RuntimeSerialize) s = None"
  proof -
    fix u assume u: "unfolds (heap s) x u" and n: "\<not> serializable u"
    from u have "toTree (Suc (length (heap s))) (heap s) [] x = Some u"
      by (simp add: toTree_iff_unfolds)
    then have "Serialize (heap s) x = None"
      using n by (simp add: Serialize_def serializeItem_None_iff)
    then show "exec C (SYSCALL RuntimeSerialize) s = None" using st by simp
  qed
  have cyc: "(\<forall>t'. \<not> unfolds (heap s) x t') \<longrightarrow> exec C (SYSCALL RuntimeSerialize) s = None"
  proof
    assume c: "\<forall>t'. \<not> unfolds (heap s) x t'"
    have "toTree (Suc (length (heap s))) (heap s) [] x = None"
    proof (cases "toTree (Suc (length (heap s))) (heap s) [] x")
      case None
      then show ?thesis .
    next
      case (Some u)
      then have "unfolds (heap s) x u" by (simp add: toTree_iff_unfolds)
      with c show ?thesis by blast
    qed
    then have "Serialize (heap s) x = None" by (simp add: Serialize_def)
    then show "exec C (SYSCALL RuntimeSerialize) s = None" using st by simp
  qed
  have bad: "unfolds (heap s) x t \<and> \<not> serializable t \<longrightarrow>
            exec C (SYSCALL RuntimeSerialize) s = None"
    using none by blast
  have iop: "x = Ref a \<and> a < length (heap s) \<and> heap s ! a = InteropObj i \<longrightarrow>
            exec C (SYSCALL RuntimeSerialize) s = None"
  proof
    assume h: "x = Ref a \<and> a < length (heap s) \<and> heap s ! a = InteropObj i"
    then have "unfolds (heap s) x (InteropItem i)" by (auto intro: unfolds.u_interop)
    then show "exec C (SYSCALL RuntimeSerialize) s = None" by (rule none) simp
  qed
  from good cyc bad iop show ?thesis by blast
qed

text \<open>
  The theorem at work on the tests: the array \<^verbatim>\<open>[true, 123, {}]\<close> of \<^verbatim>\<open>TestSerializeArray\<close>
  survives the round trip; the array of \<^verbatim>\<open>TestSerializeArrayBad\<close>, which contains itself,
  has no finite unfolding and faults, and so does the interop handle of
  \<^verbatim>\<open>TestSerializeInterop\<close>.
\<close>

theorem Serialize_Deserialize_round_trip_witness:
  "unfolds (heap vmArray) (Ref 1) (ArrayItem [BoolItem True, BigIntegerItem 123, MapItem []])
   \<and> (\<exists>bs. exec (cfg 2048) (SYSCALL RuntimeSerialize) vmArray
              = Some (vmArray\<lparr>estack := [BytesV bs]\<rparr>)
          \<and> exec (cfg 2048) (SYSCALL RuntimeDeserialize) (vmArray\<lparr>estack := [BytesV bs]\<rparr>)
              = Some (vmArray\<lparr>estack := [Ref 3],
                        heap := heap vmArray @ [MapObj [], ArrayObj [BoolV True, IntV 123, Ref 2]]\<rparr>))
   \<and> unfolds (heap vmArray @ [MapObj [], ArrayObj [BoolV True, IntV 123, Ref 2]]) (Ref 3)
       (ArrayItem [BoolItem True, BigIntegerItem 123, MapItem []])
   \<and> (\<forall>t. \<not> unfolds (heap vmCyclic) (Ref 0) t)
   \<and> exec (cfg 2048) (SYSCALL RuntimeSerialize) vmCyclic = None
   \<and> exec (cfg 2048) (SYSCALL RuntimeSerialize) vmInterop = None"
proof -
  let ?t = "ArrayItem [BoolItem True, BigIntegerItem 123, MapItem []]"
  have "toTree (Suc (length (heap vmArray))) (heap vmArray) [] (Ref 1) = Some ?t"
    by (simp add: vmArray_def snapPair_def)
  then have u: "unfolds (heap vmArray) (Ref 1) ?t" by (simp only: toTree_iff_unfolds)
  have ok: "serializable ?t" "sizes_ok ?t"
    by (simp_all add: IntToBytes_def twos.simps [of 123])
  have ft: "fromTree (heap vmArray) ?t
              = (heap vmArray @ [MapObj [], ArrayObj [BoolV True, IntV 123, Ref 2]], Ref 3)"
    by (simp add: vmArray_def)
  have "toTree (Suc (length (heap vmCyclic))) (heap vmCyclic) [] (Ref 0) = None"
    by (simp add: vmCyclic_def)
  then have c: "\<forall>t. \<not> unfolds (heap vmCyclic) (Ref 0) t"
    by (simp add: toTree_iff_unfolds [symmetric])
  have e1: "estack vmArray = Ref 1 # []" by (simp add: vmArray_def)
  have e2: "estack vmCyclic = Ref 0 # []" by (simp add: vmCyclic_def)
  have e3: "estack vmInterop = Ref 0 # []" by (simp add: vmInterop_def)
  have i: "Ref 0 = Ref 0 \<and> 0 < length (heap vmInterop) \<and> heap vmInterop ! 0 = InteropObj 7"
    by (simp add: vmInterop_def)
  have g: "\<exists>bs. exec (cfg 2048) (SYSCALL RuntimeSerialize) vmArray
              = Some (vmArray\<lparr>estack := BytesV bs # []\<rparr>)
          \<and> exec (cfg 2048) (SYSCALL RuntimeDeserialize) (vmArray\<lparr>estack := BytesV bs # []\<rparr>)
              = Some (vmArray\<lparr>estack := snd (fromTree (heap vmArray) ?t) # [],
                        heap := fst (fromTree (heap vmArray) ?t)\<rparr>)
          \<and> unfolds (fst (fromTree (heap vmArray) ?t)) (snd (fromTree (heap vmArray) ?t)) ?t"
    using Serialize_Deserialize_round_trip [OF e1, of ?t "cfg 2048"] u ok by blast
  have cy: "exec (cfg 2048) (SYSCALL RuntimeSerialize) vmCyclic = None"
    using Serialize_Deserialize_round_trip [OF e2, of NullItem "cfg 2048"] c by blast
  have io: "exec (cfg 2048) (SYSCALL RuntimeSerialize) vmInterop = None"
    using Serialize_Deserialize_round_trip [OF e3, of NullItem "cfg 2048" 0 7] i by blast
  from g have g': "\<exists>bs. exec (cfg 2048) (SYSCALL RuntimeSerialize) vmArray
              = Some (vmArray\<lparr>estack := [BytesV bs]\<rparr>)
          \<and> exec (cfg 2048) (SYSCALL RuntimeDeserialize) (vmArray\<lparr>estack := [BytesV bs]\<rparr>)
              = Some (vmArray\<lparr>estack := [Ref 3],
                        heap := heap vmArray @ [MapObj [], ArrayObj [BoolV True, IntV 123, Ref 2]]\<rparr>)
          \<and> unfolds (heap vmArray @ [MapObj [], ArrayObj [BoolV True, IntV 123, Ref 2]]) (Ref 3) ?t"
    unfolding ft fst_conv snd_conv .
  from g' cy io u c show ?thesis by blast
qed

section \<open>The VM: the stack-size cap\<close>

text \<open>
  The tests of the cap. \<^verbatim>\<open>TestStackLimit\<close>: the live item count after each instruction.
  \<^verbatim>\<open>TestStackLimitPUSH1Good\<close> and \<^verbatim>\<open>TestStackLimitPUSH1Bad\<close>, for every cap \<^verbatim>\<open>m\<close>: pushing
  \<^verbatim>\<open>m\<close> items and dropping them halts, pushing \<^verbatim>\<open>m + 1\<close> items faults at the last push.
  \<^verbatim>\<open>TestStackLimitAPPENDStructGood\<close> and \<^verbatim>\<open>Bad\<close>, scaled to a struct of 3 structs, which
  ends with \<^verbatim>\<open>2 * 3 + 3\<close> items: a cap of 9 lets it halt, a cap of 8 faults at APPEND.
\<close>

lemma TestStackLimit:
  "trace (cfg 2048) stackLimitProg vm0
     = [1, 3, 3, 4, 6, 7, 8, 9, 10, 8, 9, 10, 11, 8, 9, 10, 7, 6]"
  by code_simp

lemma TestStackLimitPUSH1Good:
  "run (cfg m) (replicate m (PUSHINT 1) @ replicate m DROP) 0 (ints 0) = Inr (ints 0)"
  using run_pushes [of 0 m m 0] run_drops [of m m m m]
  by (simp add: run_append)

lemma TestStackLimitPUSH1Bad:
  "run (cfg m) (replicate (Suc m) (PUSHINT 1)) 0 (ints 0) = Inl (m, StackTooBig)"
proof -
  have "replicate (Suc m) (PUSHINT 1) = replicate m (PUSHINT 1) @ [PUSHINT 1]"
    by (simp add: replicate_append_same)
  then show ?thesis
    using run_pushes [of 0 m m 0] by (simp add: run_append step_push)
qed

lemma TestStackLimitAPPENDStructGood:
  "trace (cfg 9) (appendBigStruct 3) vm0 = [1, 1, 2, 2, 3, 3, 4, 4, 4, 5, 6, 6, 6, 7, 7, 9, 9]"
  by code_simp

lemma TestStackLimitAPPENDStructBad:
  "run (cfg 8) (appendBigStruct 3) 0 vm0 = Inl (15, StackTooBig)"
  by code_simp

text \<open>
  C8. In every run, an instruction whose execution (within the gas limit) leaves more than
  MaxStackSize live items, counted over both stacks and inside compound items, makes the
  run fault at exactly that instruction. Conversely a run faults for this reason at
  instruction \<^verbatim>\<open>j\<close> only if the instructions before \<^verbatim>\<open>j\<close> ran and instruction \<^verbatim>\<open>j\<close>
  produced more than MaxStackSize live items; and a run that halts ends with at most
  MaxStackSize live items.
\<close>

theorem stack_size_cap:
  "(run C (take n p) k s = Inr s' \<and> n < length p
      \<and> \<not> (0 < GasLimit C \<and> GasLimit C < gasConsumed s' + getPrice C (p ! n))
      \<and> exec C (p ! n) (s'\<lparr>gasConsumed := gasConsumed s' + getPrice C (p ! n)\<rparr>) = Some s1
      \<and> MaxStackSize C < itemCount s1
     \<longrightarrow> run C p k s = Inl (k + n, StackTooBig))
   \<and> (run C p k s = Inl (j, StackTooBig) \<longrightarrow>
        k \<le> j \<and> j < k + length p
        \<and> (\<exists>s2 s3. run C (take (j - k) p) k s = Inr s2
              \<and> exec C (p ! (j - k))
                   (s2\<lparr>gasConsumed := gasConsumed s2 + getPrice C (p ! (j - k))\<rparr>) = Some s3
              \<and> MaxStackSize C < itemCount s3))
   \<and> (run C p k s = Inr s' \<and> p \<noteq> [] \<longrightarrow> itemCount s' \<le> MaxStackSize C)"
proof -
  have a: "run C (take n p) k s = Inr s' \<and> n < length p
      \<and> \<not> (0 < GasLimit C \<and> GasLimit C < gasConsumed s' + getPrice C (p ! n))
      \<and> exec C (p ! n) (s'\<lparr>gasConsumed := gasConsumed s' + getPrice C (p ! n)\<rparr>) = Some s1
      \<and> MaxStackSize C < itemCount s1
     \<longrightarrow> run C p k s = Inl (k + n, StackTooBig)"
  proof
    assume h: "run C (take n p) k s = Inr s' \<and> n < length p
      \<and> \<not> (0 < GasLimit C \<and> GasLimit C < gasConsumed s' + getPrice C (p ! n))
      \<and> exec C (p ! n) (s'\<lparr>gasConsumed := gasConsumed s' + getPrice C (p ! n)\<rparr>) = Some s1
      \<and> MaxStackSize C < itemCount s1"
    then have "step C (p ! n) s' = Inl StackTooBig"
      by (simp add: step_StackTooBig_iff)
    with h show "run C p k s = Inl (k + n, StackTooBig)"
      by (intro run_faults_when [of C n p k s s']) simp_all
  qed
  have b: "run C p k s = Inl (j, StackTooBig) \<longrightarrow>
        k \<le> j \<and> j < k + length p
        \<and> (\<exists>s2 s3. run C (take (j - k) p) k s = Inr s2
              \<and> exec C (p ! (j - k))
                   (s2\<lparr>gasConsumed := gasConsumed s2 + getPrice C (p ! (j - k))\<rparr>) = Some s3
              \<and> MaxStackSize C < itemCount s3)"
  proof
    assume r: "run C p k s = Inl (j, StackTooBig)"
    from run_fault_at [OF r] obtain s2 where
      s2: "run C (take (j - k) p) k s = Inr s2" "step C (p ! (j - k)) s2 = Inl StackTooBig"
      by blast
    from s2(2) obtain s3 where
      "exec C (p ! (j - k)) (s2\<lparr>gasConsumed := gasConsumed s2 + getPrice C (p ! (j - k))\<rparr>)
         = Some s3" "MaxStackSize C < itemCount s3"
      by (auto simp: step_StackTooBig_iff)
    with s2(1) run_fault_index [OF r]
    show "k \<le> j \<and> j < k + length p
        \<and> (\<exists>s2 s3. run C (take (j - k) p) k s = Inr s2
              \<and> exec C (p ! (j - k))
                   (s2\<lparr>gasConsumed := gasConsumed s2 + getPrice C (p ! (j - k))\<rparr>) = Some s3
              \<and> MaxStackSize C < itemCount s3)"
      by blast
  qed
  have c: "run C p k s = Inr s' \<and> p \<noteq> [] \<longrightarrow> itemCount s' \<le> MaxStackSize C"
    using run_Inr_count by blast
  from a b c show ?thesis by blast
qed

text \<open>
  The theorem at work on the scaled \<^verbatim>\<open>TestStackLimitAPPENDStructBad\<close>: the fault is at
  instruction 15, the APPEND, which the 15 instructions before it reach.
\<close>

theorem stack_size_cap_witness:
  "run (cfg 8) (appendBigStruct 3) 0 vm0 = Inl (15, StackTooBig)
   \<and> appendBigStruct 3 ! 15 = APPEND
   \<and> (\<exists>s2 s3. run (cfg 8) (take 15 (appendBigStruct 3)) 0 vm0 = Inr s2
         \<and> exec (cfg 8) APPEND s2 = Some s3 \<and> 8 < itemCount s3)"
proof -
  have r: "run (cfg 8) (appendBigStruct 3) 0 vm0 = Inl (15, StackTooBig)"
    by code_simp
  have i: "appendBigStruct 3 ! 15 = APPEND"
    by code_simp
  show ?thesis
    using stack_size_cap [of "cfg 8" 0 "appendBigStruct 3" 0 vm0 vm0 vm0 15] r i
    by (simp add: cfg_def)
qed

section \<open>The VM: determinism\<close>














































text \<open>
  Identical states hold the same items: nothing is moved.
\<close>

lemma relocSlot_id: "relocSlot id x = x"
  by (cases x) simp_all

lemma relocObject_id: "relocObject id ob = ob"
  by (cases ob) (simp_all add: relocEntry_def relocSlot_id map_idI)

lemma identical_states: "relocation n id \<and> sameState id s s"
  by (simp add: relocation_def sameState_def sameHeap_def relocSlot_id relocObject_id map_idI)

text \<open>
  \<^verbatim>\<open>TestIteratorValues\<close>: the values of the map come out in the order of its entries, each
  after the \<^verbatim>\<open>true\<close> of its \<^verbatim>\<open>Next\<close>, and the last \<^verbatim>\<open>Next\<close> gives \<^verbatim>\<open>false\<close>.
\<close>

lemma TestIteratorValues:
  "outcome (cfg 2048) iterValuesProg vmMap
     = (HALT, [Some (BoolItem False), Some (ByteArrayItem [7]), Some (BoolItem True),
               Some (BoolItem False), Some (BoolItem True)], 0)"
  by code_simp



end
